theory Spec2Isabelle
  imports Main "HOL-Library.Multiset"
begin

section \<open>Positions, arrays and errors\<close>

text \<open>
  A position is the Python tuple \<open>(row, col)\<close> of unbounded integers. The occupancy grid
  is a two-dimensional numpy array of integers, \<open>0\<close> for an open cell and \<open>1\<close> for a
  wall: it is modelled by its shape and its contents, a function of the index pair.
  \<open>cell\<close> is the read \<open>maze[r, c]\<close> and \<open>set_cell\<close> the write \<open>maze[r, c] = v\<close>, both
  for an index inside the shape (\<open>in_array\<close>), where numpy neither raises nor wraps.
  The reads and writes guarded by a bounds test in the source use them as they are; the
  unguarded write \<open>maze[1, 1] = 0\<close> of \<open>Maze.generate\<close> tests \<open>in_array\<close> and raises.
\<close>

type_synonym pos = "int \<times> int"

datatype py_error = IndexError | ValueError | MemoryError

record ndarray =
  nd_rows :: int
  nd_cols :: int
  nd_data :: "pos \<Rightarrow> int"

definition in_array :: "ndarray \<Rightarrow> pos \<Rightarrow> bool" where
  "in_array m p = (0 \<le> fst p \<and> fst p < nd_rows m \<and> 0 \<le> snd p \<and> snd p < nd_cols m)"

definition cell :: "ndarray \<Rightarrow> pos \<Rightarrow> int" where
  "cell m p = nd_data m p"

definition set_cell :: "ndarray \<Rightarrow> pos \<Rightarrow> int \<Rightarrow> ndarray" where
  "set_cell m p v = m\<lparr>nd_data := (nd_data m)(p := v)\<rparr>"

text \<open>
  \<open>np.ones((h, w), dtype=int)\<close>, on a 64-bit platform: a dimension is a signed 64-bit
  integer (\<open>npy_intp\<close>) and an element takes eight bytes. numpy raises \<open>ValueError\<close> for
  a negative dimension, for a dimension beyond \<open>npy_intp_max\<close>, and for an array whose
  size in bytes (the product of the item size and the non-zero dimensions) is beyond
  \<open>npy_intp_max\<close>. The allocation itself fails with \<open>MemoryError\<close> when the array needs
  more bytes than the allocator can provide: that amount, \<open>mem\<close>, belongs to the
  environment of the call and is a parameter.
\<close>

definition npy_intp_max :: int where
  "npy_intp_max = 2 ^ 63 - 1"

definition itemsize :: int where
  "itemsize = 8"

definition ones :: "int \<Rightarrow> int \<Rightarrow> int \<Rightarrow> py_error + ndarray" where
  "ones mem h w =
     (if h < 0 \<or> w < 0 then Inl ValueError
      else if h > npy_intp_max \<or> w > npy_intp_max then Inl ValueError
      else if itemsize * (if h = 0 then 1 else h) * (if w = 0 then 1 else w) > npy_intp_max
        then Inl ValueError
      else if itemsize * h * w > mem then Inl MemoryError
      else Inr \<lparr>nd_rows = h, nd_cols = w, nd_data = (\<lambda>p. 1)\<rparr>)"

text \<open>An array literal, given by its rows (all of one length).\<close>

definition array_of :: "int list list \<Rightarrow> ndarray" where
  "array_of rws =
     \<lparr>nd_rows = int (length rws),
      nd_cols = (case rws of [] \<Rightarrow> 0 | r # rs \<Rightarrow> int (length r)),
      nd_data = (\<lambda>p. rws ! nat (fst p) ! nat (snd p))\<rparr>"

section \<open>The heap of the standard library\<close>

text \<open>
  \<open>heapq.heappush\<close> and \<open>heapq.heappop\<close> as CPython defines them (\<open>_siftdown\<close>,
  \<open>_siftup\<close>), on a list of items compared by \<open>key a < key b\<close>: \<open>Node.__lt__\<close> compares
  the field \<open>f\<close> and nothing else. The item being placed is held aside while its parents
  (or smaller children) move, and written at its final index.
\<close>

function siftdown_loop :: "('a \<Rightarrow> int) \<Rightarrow> 'a \<Rightarrow> 'a list \<Rightarrow> nat \<Rightarrow> nat \<Rightarrow> 'a list" where
  "siftdown_loop key newitem heap startpos pos =
     (if pos > startpos then
        (let parentpos = (pos - 1) div 2;
             parent = heap ! parentpos
         in if key newitem < key parent
            then siftdown_loop key newitem (heap[pos := parent]) startpos parentpos
            else heap[pos := newitem])
      else heap[pos := newitem])"
  by pat_completeness auto
termination
  by (relation "measure (\<lambda>(key, newitem, heap, startpos, pos). pos)") auto

declare siftdown_loop.simps [simp del]

definition siftdown :: "('a \<Rightarrow> int) \<Rightarrow> 'a list \<Rightarrow> nat \<Rightarrow> nat \<Rightarrow> 'a list" where
  "siftdown key heap startpos pos = siftdown_loop key (heap ! pos) heap startpos pos"

function siftup_loop :: "('a \<Rightarrow> int) \<Rightarrow> 'a list \<Rightarrow> nat \<Rightarrow> nat \<Rightarrow> 'a list \<times> nat" where
  "siftup_loop key heap endpos pos =
     (let childpos = 2 * pos + 1
      in if childpos < endpos then
           (let rightpos = childpos + 1;
                childpos' = (if rightpos < endpos \<and> \<not> key (heap ! childpos) < key (heap ! rightpos)
                             then rightpos else childpos)
            in siftup_loop key (heap[pos := heap ! childpos']) endpos childpos')
         else (heap, pos))"
  by pat_completeness auto
termination
  by (relation "measure (\<lambda>(key, heap, endpos, pos). endpos - pos)") auto

declare siftup_loop.simps [simp del]

definition siftup :: "('a \<Rightarrow> int) \<Rightarrow> 'a list \<Rightarrow> nat \<Rightarrow> 'a list" where
  "siftup key heap pos =
     (let endpos = length heap;
          startpos = pos;
          newitem = heap ! pos;
          (heap', pos') = siftup_loop key heap endpos pos
      in siftdown key (heap'[pos' := newitem]) startpos pos')"

definition heappush :: "('a \<Rightarrow> int) \<Rightarrow> 'a list \<Rightarrow> 'a \<Rightarrow> 'a list" where
  "heappush key heap item = siftdown key (heap @ [item]) 0 (length (heap @ [item]) - 1)"

definition heappop :: "('a \<Rightarrow> int) \<Rightarrow> 'a list \<Rightarrow> py_error + ('a \<times> 'a list)" where
  "heappop key heap =
     (if heap = [] then Inl IndexError
      else (let lastelt = last heap;
                heap' = butlast heap
            in if heap' \<noteq> [] then
                 (let returnitem = heap' ! 0
                  in Inr (returnitem, siftup key (heap'[0 := lastelt]) 0))
               else Inr (lastelt, heap')))"

section \<open>The search: \<open>astar.py\<close>\<close>

text \<open>
  \<open>Node\<close> is the dataclass of the source; its fields carry the prefix \<open>node_\<close> here, and
  the keys of a cost dictionary the prefix \<open>cost_\<close>. The costs of the search are Python
  integers (\<open>0\<close>, \<open>current.g + 1\<close>, the sum of two absolute values). The defaults
  \<open>float('inf')\<close> of a new node are overwritten before they are ever read (the four
  assignments follow the construction at once), so a node is built with its assigned
  fields. \<open>float(g)\<close> of \<open>generate_path_costs\<close> is the same integer, exactly.

  The dictionary \<open>nodes\<close> maps a position to its \<open>Node\<close> object and is the only owner of
  the objects: one object is created per key, at the moment the key is inserted, and no
  key is ever removed. A reference to a node (in \<open>open_list\<close>, in \<open>parent\<close>, in
  \<open>current\<close>) is therefore the key of that object in \<open>nodes\<close>, and a write through a
  reference is an update of the store \<open>nodes\<close>, seen by every holder of the reference:
  the heap compares the current \<open>f\<close> of the objects it refers to.
\<close>

record node =
  node_pos :: pos
  node_g :: int
  node_h :: int
  node_f :: int
  node_parent :: "pos option"
  node_status :: string

record cost =
  cost_g :: int
  cost_h :: int
  cost_f :: int
  cost_status :: string

record AStar =
  astar_maze :: ndarray
  astar_height :: int
  astar_width :: int
  cost_history :: "cost list"

type_synonym nodes = "pos \<rightharpoonup> node"

definition AStar_init :: "ndarray \<Rightarrow> AStar" where
  "AStar_init maze =
     \<lparr>astar_maze = maze, astar_height = nd_rows maze, astar_width = nd_cols maze,
      cost_history = []\<rparr>"

definition heuristic :: "pos \<Rightarrow> pos \<Rightarrow> int" where
  "heuristic p end_pos = \<bar>fst p - fst end_pos\<bar> + \<bar>snd p - snd end_pos\<bar>"

definition get_neighbors :: "AStar \<Rightarrow> pos \<Rightarrow> pos list" where
  "get_neighbors a p =
     filter (\<lambda>n. 0 \<le> fst n \<and> fst n < astar_height a \<and> 0 \<le> snd n \<and> snd n < astar_width a
                 \<and> cell (astar_maze a) n = 0)
       (map (\<lambda>d. (fst p + fst d, snd p + snd d)) [(0, 1), (1, 0), (0, -1), (-1, 0)])"

definition record_step :: "AStar \<Rightarrow> node \<Rightarrow> AStar" where
  "record_step a n =
     a\<lparr>cost_history := cost_history a @
        [\<lparr>cost_g = node_g n, cost_h = node_h n, cost_f = node_f n, cost_status = node_status n\<rparr>]\<rparr>"

definition generate_path_costs :: "pos list \<Rightarrow> pos \<Rightarrow> cost list" where
  "generate_path_costs path end_pos =
     map (\<lambda>(i, p).
            \<lparr>cost_g = int i, cost_h = heuristic p end_pos, cost_f = int i + heuristic p end_pos,
             cost_status = (if p = end_pos then ''reached'' else ''on_path'')\<rparr>)
       (enumerate 0 path)"

text \<open>The order of the heap: \<open>a < b\<close> is \<open>a.f < b.f\<close>, read from the store.\<close>

definition fkey :: "nodes \<Rightarrow> pos \<Rightarrow> int" where
  "fkey nodes r = node_f (the (nodes r))"

text \<open>
  The path reconstruction \<open>while current: path.append(current.pos); current =
  current.parent\<close>. A node object is always true, so the loop ends at the parent \<open>None\<close>.
\<close>

partial_function (option) reconstruct :: "nodes \<Rightarrow> pos option \<Rightarrow> pos list \<Rightarrow> pos list option" where
  "reconstruct nodes current path =
     (case current of
        None \<Rightarrow> Some path
      | Some r \<Rightarrow> reconstruct nodes (node_parent (the (nodes r))) (path @ [node_pos (the (nodes r))]))"

text \<open>
  One turn of \<open>for neighbor_pos in self.get_neighbors(current_pos)\<close>, on the pair of the
  store and the open list; \<open>continue\<close> leaves both as they are.
\<close>

definition relax :: "pos \<Rightarrow> pos \<Rightarrow> pos set \<Rightarrow> nodes \<times> pos list \<Rightarrow> pos \<Rightarrow> nodes \<times> pos list" where
  "relax end_pos current closed_set st neighbor_pos =
     (let nodes = fst st; open_list = snd st in
      if neighbor_pos \<in> closed_set then st
      else
        (let tentative_g = node_g (the (nodes current)) + 1 in
         if nodes neighbor_pos \<noteq> None \<and> tentative_g \<ge> node_g (the (nodes neighbor_pos)) then st
         else
           (let neighbor =
                  (case nodes neighbor_pos of
                     None \<Rightarrow> \<lparr>node_pos = neighbor_pos, node_g = tentative_g,
                               node_h = heuristic neighbor_pos end_pos,
                               node_f = tentative_g + heuristic neighbor_pos end_pos,
                               node_parent = Some current, node_status = ''evaluating''\<rparr>
                   | Some n \<Rightarrow> n\<lparr>node_parent := Some current, node_g := tentative_g,
                                 node_h := heuristic neighbor_pos end_pos,
                                 node_f := tentative_g + heuristic neighbor_pos end_pos\<rparr>);
                nodes' = nodes(neighbor_pos \<mapsto> neighbor)
            in if neighbor_pos \<notin> set (map (\<lambda>r. node_pos (the (nodes' r))) open_list)
               then (nodes', heappush (fkey nodes') open_list neighbor_pos)
               else (nodes', open_list))))"

text \<open>
  The main loop \<open>while open_list\<close>. It returns the instance (whose \<open>cost_history\<close> it has
  extended), the closed set as the loop leaves it, and the pair the source returns.
  \<open>None\<close> is a run that never returns.
\<close>

partial_function (option) find_loop ::
  "AStar \<Rightarrow> pos \<Rightarrow> pos list \<Rightarrow> pos set \<Rightarrow> nodes \<Rightarrow>
     (py_error + AStar \<times> pos set \<times> pos list \<times> cost list) option" where
  "find_loop a end_pos open_list closed_set nodes =
     (if open_list = [] then Some (Inr (a, closed_set, [], []))
      else
        (case heappop (fkey nodes) open_list of
           Inl e \<Rightarrow> Some (Inl e)
         | Inr popped \<Rightarrow>
             (let current = fst popped;
                  open_list' = snd popped;
                  current_pos = node_pos (the (nodes current))
              in if current_pos = end_pos then
                   (case reconstruct nodes (Some current) [] of
                      None \<Rightarrow> None
                    | Some path \<Rightarrow>
                        Some (Inr (a, closed_set, rev path, generate_path_costs (rev path) end_pos)))
                 else
                   (let closed_set' = insert current_pos closed_set;
                        a' = record_step a (the (nodes current));
                        st = foldl (relax end_pos current closed_set') (nodes, open_list')
                               (get_neighbors a' current_pos)
                    in find_loop a' end_pos (snd st) closed_set' (fst st)))))"

definition find_search ::
  "AStar \<Rightarrow> pos \<Rightarrow> pos \<Rightarrow> (py_error + AStar \<times> pos set \<times> pos list \<times> cost list) option" where
  "find_search a start end_pos =
     (let start_node = \<lparr>node_pos = start, node_g = 0, node_h = heuristic start end_pos,
                        node_f = 0 + heuristic start end_pos, node_parent = None,
                        node_status = ''evaluating''\<rparr>;
          nodes = [start \<mapsto> start_node]
      in find_loop a end_pos (heappush (fkey nodes) [] start) {} nodes)"

definition find_path ::
  "AStar \<Rightarrow> pos \<Rightarrow> pos \<Rightarrow> (py_error + AStar \<times> pos list \<times> cost list) option" where
  "find_path a start end_pos =
     map_option (map_sum id (\<lambda>r. (fst r, snd (snd r)))) (find_search a start end_pos)"

text \<open>The two loops are run on concrete inputs by their defining equations.\<close>

declare reconstruct.simps [code]
declare find_loop.simps [code]

section \<open>Paths on the grid\<close>

text \<open>
  An open cell of the grid the search sees: inside the stored height and width, and \<open>0\<close>
  in the array. Two positions are 4-adjacent when they differ by one step in one
  coordinate.
\<close>

definition is_open :: "AStar \<Rightarrow> pos \<Rightarrow> bool" where
  "is_open a p =
     (0 \<le> fst p \<and> fst p < astar_height a \<and> 0 \<le> snd p \<and> snd p < astar_width a
      \<and> cell (astar_maze a) p = 0)"

definition adjacent :: "pos \<Rightarrow> pos \<Rightarrow> bool" where
  "adjacent p q = (\<bar>fst p - fst q\<bar> + \<bar>snd p - snd q\<bar> = 1)"

text \<open>
  \<open>open_path\<close>: a 4-connected path of open cells from \<open>s\<close> to \<open>e\<close>, both included.
  \<open>step_path\<close>: the same, but nothing is asked of the first position: a path that
  leaves \<open>s\<close> and moves from open cell to open cell.
\<close>

definition open_path :: "AStar \<Rightarrow> pos \<Rightarrow> pos \<Rightarrow> pos list \<Rightarrow> bool" where
  "open_path a s e ps =
     (ps \<noteq> [] \<and> hd ps = s \<and> last ps = e \<and> list_all (is_open a) ps \<and> successively adjacent ps)"

definition step_path :: "AStar \<Rightarrow> pos \<Rightarrow> pos \<Rightarrow> pos list \<Rightarrow> bool" where
  "step_path a s e ps =
     (ps \<noteq> [] \<and> hd ps = s \<and> last ps = e \<and> list_all (is_open a) (tl ps) \<and> successively adjacent ps)"

definition solvable :: "AStar \<Rightarrow> pos \<Rightarrow> pos \<Rightarrow> bool" where
  "solvable a s e = (\<exists>ps. open_path a s e ps)"

text \<open>
  Concrete grids. \<open>detour_grid\<close>: seven rows of three cells. \<open>scenario_grid\<close>: the
  five by five grid of the specification's scenario, its interior open and the border
  opened at \<open>(1, 0)\<close> and \<open>(1, 4)\<close>. \<open>wall_start_grid\<close> and \<open>blocked_grid\<close>: one row.
\<close>

definition detour_grid :: ndarray where
  "detour_grid = array_of
     [[0, 0, 0],
      [1, 1, 0],
      [0, 0, 0],
      [0, 0, 0],
      [0, 1, 0],
      [0, 0, 0],
      [1, 0, 0]]"

definition scenario_grid :: ndarray where
  "scenario_grid = array_of
     [[1, 1, 1, 1, 1],
      [0, 0, 0, 0, 0],
      [1, 0, 0, 0, 1],
      [1, 0, 0, 0, 1],
      [1, 1, 1, 1, 1]]"

definition wall_start_grid :: ndarray where
  "wall_start_grid = array_of [[1, 0]]"

definition blocked_grid :: ndarray where
  "blocked_grid = array_of [[0, 1, 0]]"

text \<open>
  The invariant of the main loop, at the test \<open>while open_list\<close>. A node is sound
  (\<open>node_ok\<close>) when it sits at its own key, is still \<open>evaluating\<close>, and has either no
  parent (the start node) or a closed parent one step cheaper of which it is a
  neighbour. The open list holds each reference once and none that is closed; every key
  of the store is open or closed; a closed position is the start or an open cell, and
  never the goal.
\<close>

definition node_ok :: "AStar \<Rightarrow> pos \<Rightarrow> pos set \<Rightarrow> nodes \<Rightarrow> pos \<Rightarrow> node \<Rightarrow> bool" where
  "node_ok a start closed_set nodes p n =
     (node_pos n = p \<and> node_status n = ''evaluating'' \<and> 0 \<le> node_g n \<and>
      (case node_parent n of
         None \<Rightarrow> p = start
       | Some q \<Rightarrow> q \<in> closed_set \<and> p \<in> set (get_neighbors a q) \<and>
                  (\<exists>m. nodes q = Some m \<and> node_g n = node_g m + 1)))"

definition find_inv :: "AStar \<Rightarrow> pos \<Rightarrow> pos \<Rightarrow> pos list \<Rightarrow> pos set \<Rightarrow> nodes \<Rightarrow> bool" where
  "find_inv a start end_pos open_list closed_set nodes =
     (distinct open_list \<and> set open_list \<inter> closed_set = {} \<and>
      dom nodes = set open_list \<union> closed_set \<and>
      closed_set \<subseteq> insert start {p. is_open a p} \<and>
      end_pos \<notin> closed_set \<and>
      (\<forall>p n. nodes p = Some n \<longrightarrow> node_ok a start closed_set nodes p n))"

section \<open>The maze: \<open>maze.py\<close>\<close>

text \<open>
  The fields \<open>width\<close>, \<open>height\<close>, \<open>maze\<close>, \<open>start\<close> and \<open>end\<close> of the class \<open>Maze\<close> carry
  the prefix \<open>maze_\<close> (the array is \<open>maze_grid\<close>). Python's \<open>%\<close> and \<open>//\<close> by \<open>2\<close> are
  \<open>mod\<close> and \<open>div\<close> on \<open>int\<close>: both round towards minus infinity. The constructor
  takes, before the width and the height, the memory \<open>mem\<close> that \<open>np.ones\<close> can draw on.
\<close>

record Maze =
  maze_width :: int
  maze_height :: int
  maze_grid :: ndarray
  maze_start :: "pos option"
  maze_end :: "pos option"

definition Maze_init :: "int \<Rightarrow> int \<Rightarrow> int \<Rightarrow> py_error + Maze" where
  "Maze_init mem width height =
     (let w = (if width mod 2 = 1 then width else width + 1);
          h = (if height mod 2 = 1 then height else height + 1)
      in case ones mem h w of
           Inl e \<Rightarrow> Inl e
         | Inr grid \<Rightarrow>
             Inr \<lparr>maze_width = w, maze_height = h, maze_grid = grid,
                  maze_start = None, maze_end = None\<rparr>)"

text \<open>
  The module \<open>random\<close> is a stream of draws \<open>rnd 0, rnd 1, \<dots>\<close>, any natural numbers; the
  counter of the draws already made is passed along. \<open>random.choice(xs)\<close> indexes a
  non-empty list with a draw, \<open>random.randint(lo, hi)\<close> maps a draw into \<open>lo..hi\<close>
  (for \<open>lo \<le> hi\<close>; Python raises \<open>ValueError\<close> on an empty range). Every statement
  below is about all streams.
\<close>

definition choice :: "nat \<Rightarrow> 'a list \<Rightarrow> 'a" where
  "choice r xs = xs ! (r mod length xs)"

definition randint :: "nat \<Rightarrow> int \<Rightarrow> int \<Rightarrow> int" where
  "randint r lo hi = lo + int (r mod nat (hi - lo + 1))"

definition directions :: "pos list" where
  "directions = [(0, 2), (2, 0), (0, -2), (-2, 0)]"

text \<open>The list \<open>unvisited\<close> built at the top of each turn of the carving loop.\<close>

definition unvisited :: "Maze \<Rightarrow> pos \<Rightarrow> pos list" where
  "unvisited m current =
     filter (\<lambda>n. 0 < fst n \<and> fst n < maze_height m - 1 \<and> 0 < snd n \<and> snd n < maze_width m - 1
                 \<and> cell (maze_grid m) n = 1)
       (map (\<lambda>d. (fst current + fst d, snd current + snd d)) directions)"

text \<open>
  One turn of \<open>while stack\<close>: the top of the stack is its last element; a draw is made
  only when \<open>unvisited\<close> is not empty.
\<close>

definition carve_step :: "(nat \<Rightarrow> nat) \<Rightarrow> nat \<Rightarrow> Maze \<Rightarrow> pos list \<Rightarrow> nat \<times> Maze \<times> pos list" where
  "carve_step rnd i m stack =
     (let current = last stack;
          x = fst current;
          y = snd current;
          unv = unvisited m current
      in if unv \<noteq> [] then
           (let next_cell = choice (rnd i) unv;
                nx = fst next_cell;
                ny = snd next_cell;
                grid1 = set_cell (maze_grid m) ((x + nx) div 2, (y + ny) div 2) 0;
                grid2 = set_cell grid1 (nx, ny) 0
            in (i + 1, m\<lparr>maze_grid := grid2\<rparr>, stack @ [next_cell]))
         else (i, m, butlast stack))"

partial_function (option) carve_loop ::
  "(nat \<Rightarrow> nat) \<Rightarrow> nat \<Rightarrow> Maze \<Rightarrow> pos list \<Rightarrow> (nat \<times> Maze) option" where
  "carve_loop rnd i m stack =
     (if stack = [] then Some (i, m)
      else (let st = carve_step rnd i m stack
            in carve_loop rnd (fst st) (fst (snd st)) (snd (snd st))))"

text \<open>
  The re-roll loop \<open>while self.maze[y, col] == 1: y = random.randint(1, self.height-2)\<close>
  of \<open>generate_start_end\<close>; \<open>None\<close> is a run that draws walls for ever.
  \<open>generate_start_end\<close> is modelled as \<open>generate\<close> calls it, on an array that has the
  stored height and width as its shape and at least two rows and columns: the rows
  drawn and the columns \<open>0\<close>, \<open>1\<close>, \<open>width - 2\<close> and \<open>width - 1\<close> are then inside the
  array. The first \<open>randint\<close> raises \<open>ValueError\<close> when \<open>height - 2 < 1\<close>.
\<close>

partial_function (option) reroll ::
  "(nat \<Rightarrow> nat) \<Rightarrow> nat \<Rightarrow> Maze \<Rightarrow> int \<Rightarrow> int \<Rightarrow> (nat \<times> int) option" where
  "reroll rnd i m col y =
     (if cell (maze_grid m) (y, col) = 1
      then reroll rnd (i + 1) m col (randint (rnd i) 1 (maze_height m - 2))
      else Some (i, y))"

definition generate_start_end :: "(nat \<Rightarrow> nat) \<Rightarrow> nat \<Rightarrow> Maze \<Rightarrow> (py_error + Maze) option" where
  "generate_start_end rnd i m =
     (if maze_height m - 2 < 1 then Some (Inl ValueError)
      else
        (case reroll rnd (i + 1) m 1 (randint (rnd i) 1 (maze_height m - 2)) of
           None \<Rightarrow> None
         | Some r1 \<Rightarrow>
             (let start_y = snd r1 in
              case reroll rnd (fst r1 + 1) m (maze_width m - 2)
                     (randint (rnd (fst r1)) 1 (maze_height m - 2)) of
                None \<Rightarrow> None
              | Some r2 \<Rightarrow>
                  (let end_y = snd r2;
                       grid1 = set_cell (maze_grid m) (start_y, 0) 0;
                       grid2 = set_cell grid1 (end_y, maze_width m - 1) 0
                   in Some (Inr (m\<lparr>maze_start := Some (start_y, 0),
                                    maze_end := Some (end_y, maze_width m - 1),
                                    maze_grid := grid2\<rparr>))))))"

text \<open>
  \<open>Maze.generate\<close>. The write \<open>self.maze[1, 1] = 0\<close> raises \<open>IndexError\<close> on an array
  with fewer than two rows or columns. \<open>carved\<close> is the state at the loop's entry.
\<close>

definition carved :: "Maze \<Rightarrow> Maze" where
  "carved m = m\<lparr>maze_grid := set_cell (maze_grid m) (1, 1) 0\<rparr>"

definition generate :: "(nat \<Rightarrow> nat) \<Rightarrow> Maze \<Rightarrow> (py_error + Maze) option" where
  "generate rnd m =
     (if \<not> in_array (maze_grid m) (1, 1) then Some (Inl IndexError)
      else
        (case carve_loop rnd 0 (carved m) [(1, 1)] of
           None \<Rightarrow> None
         | Some r \<Rightarrow> generate_start_end rnd (fst r) (snd r)))"

text \<open>The loops of the maze are run on concrete inputs by their defining equations.\<close>

declare carve_loop.simps [code]
declare reroll.simps [code]

text \<open>
  \<open>to_rows\<close> lists the contents of an array row by row. \<open>maze5\<close> is the object
  \<open>Maze(5, 5)\<close> (built with four kilobytes of memory to draw on), and \<open>first_draw\<close> the stream of draws that are all \<open>0\<close>: every choice
  takes the first candidate.
\<close>

definition to_rows :: "ndarray \<Rightarrow> int list list" where
  "to_rows g = map (\<lambda>r. map (\<lambda>c. cell g (r, c)) [0..nd_cols g - 1]) [0..nd_rows g - 1]"

definition maze5 :: Maze where
  "maze5 = \<lparr>maze_width = 5, maze_height = 5,
            maze_grid = \<lparr>nd_rows = 5, nd_cols = 5, nd_data = (\<lambda>p. 1)\<rparr>,
            maze_start = None, maze_end = None\<rparr>"

definition first_draw :: "nat \<Rightarrow> nat" where
  "first_draw i = 0"

section \<open>Perfect mazes\<close>

text \<open>
  The open cells of an array, simple paths among a set of cells, and trees: a set of
  cells is a tree when any two of its cells are joined by exactly one simple path.
\<close>

definition open_cells :: "ndarray \<Rightarrow> pos set" where
  "open_cells g = {p. in_array g p \<and> cell g p = 0}"

definition simple_path :: "pos set \<Rightarrow> pos \<Rightarrow> pos \<Rightarrow> pos list \<Rightarrow> bool" where
  "simple_path S a b ps =
     (ps \<noteq> [] \<and> hd ps = a \<and> last ps = b \<and> set ps \<subseteq> S \<and> distinct ps \<and> successively adjacent ps)"

definition is_tree :: "pos set \<Rightarrow> bool" where
  "is_tree S = (\<forall>a\<in>S. \<forall>b\<in>S. \<exists>!ps. simple_path S a b ps)"

text \<open>
  The invariant of the carving loop. \<open>interior\<close> is the guard of the source on a
  candidate cell. \<open>carve_shape\<close>: the array has the stored, odd dimensions and holds only
  \<open>0\<close> and \<open>1\<close>; an open cell is interior and has an odd coordinate; an open cell with an
  even coordinate (a removed wall) lies between two open rooms; the stack holds open
  rooms; the seed is open. \<open>carve_done\<close>: around an open room that has left the stack,
  every room two steps away inside the border is open.
\<close>

definition interior :: "Maze \<Rightarrow> pos \<Rightarrow> bool" where
  "interior m p =
     (0 < fst p \<and> fst p < maze_height m - 1 \<and> 0 < snd p \<and> snd p < maze_width m - 1)"

definition carve_shape :: "Maze \<Rightarrow> pos list \<Rightarrow> bool" where
  "carve_shape m stack =
     (nd_rows (maze_grid m) = maze_height m \<and> nd_cols (maze_grid m) = maze_width m \<and>
      odd (maze_height m) \<and> odd (maze_width m) \<and> 3 \<le> maze_height m \<and> 3 \<le> maze_width m \<and>
      (\<forall>p. cell (maze_grid m) p = 0 \<or> cell (maze_grid m) p = 1) \<and>
      (\<forall>p. cell (maze_grid m) p = 0 \<longrightarrow> interior m p \<and> (odd (fst p) \<or> odd (snd p))) \<and>
      (\<forall>p. cell (maze_grid m) p = 0 \<longrightarrow> even (fst p) \<longrightarrow>
           cell (maze_grid m) (fst p - 1, snd p) = 0 \<and> cell (maze_grid m) (fst p + 1, snd p) = 0) \<and>
      (\<forall>p. cell (maze_grid m) p = 0 \<longrightarrow> even (snd p) \<longrightarrow>
           cell (maze_grid m) (fst p, snd p - 1) = 0 \<and> cell (maze_grid m) (fst p, snd p + 1) = 0) \<and>
      list_all (\<lambda>p. cell (maze_grid m) p = 0 \<and> odd (fst p) \<and> odd (snd p)) stack \<and>
      cell (maze_grid m) (1, 1) = 0)"

definition carve_done :: "Maze \<Rightarrow> pos list \<Rightarrow> bool" where
  "carve_done m stack =
     (\<forall>p d. cell (maze_grid m) p = 0 \<and> odd (fst p) \<and> odd (snd p) \<and> p \<notin> set stack \<and>
            d \<in> set directions \<and> interior m (fst p + fst d, snd p + snd d)
            \<longrightarrow> cell (maze_grid m) (fst p + fst d, snd p + snd d) = 0)"

definition carve_inv :: "Maze \<Rightarrow> pos list \<Rightarrow> bool" where
  "carve_inv m stack =
     (carve_shape m stack \<and> carve_done m stack \<and> is_tree (open_cells (maze_grid m)))"

text \<open>The walls inside the border: the carving loop's measure counts them.\<close>

definition walls :: "Maze \<Rightarrow> pos set" where
  "walls m = {p. interior m p \<and> cell (maze_grid m) p = 1}"

section \<open>The heap keeps its items\<close>

lemma mset_update_swap:
  assumes "i < length xs" "j < length xs" "i \<noteq> j"
  shows "mset (xs[i := xs ! j, j := x]) = mset (xs[i := x])"
proof -
  let ?ys = "xs[i := x]"
  have "mset (?ys[i := ?ys ! j, j := ?ys ! i]) = mset ?ys"
    using assms by (intro mset_swap) simp_all
  moreover have "?ys[i := ?ys ! j, j := ?ys ! i] = xs[i := xs ! j, j := x]"
    using assms by simp
  ultimately show ?thesis by simp
qed

lemma siftdown_loop_mset:
  "pos < length heap \<Longrightarrow> mset (siftdown_loop key x heap startpos pos) = mset (heap[pos := x])"
proof (induction key x heap startpos pos rule: siftdown_loop.induct)
  case (1 key newitem heap startpos pos)
  show ?case
  proof (cases "pos > startpos \<and> key newitem < key (heap ! ((pos - 1) div 2))")
    case True
    then have lt: "(pos - 1) div 2 < pos" by auto
    have "mset (siftdown_loop key newitem (heap[pos := heap ! ((pos - 1) div 2)]) startpos ((pos - 1) div 2))
          = mset (heap[pos := heap ! ((pos - 1) div 2), (pos - 1) div 2 := newitem])"
      using "1.IH"[OF _ refl refl] True "1.prems" lt by simp
    also have "\<dots> = mset (heap[pos := newitem])"
      using "1.prems" lt by (intro mset_update_swap) auto
    finally show ?thesis
      using True by (subst siftdown_loop.simps) (simp add: Let_def)
  next
    case False
    then show ?thesis
      by (subst siftdown_loop.simps) (auto simp: Let_def)
  qed
qed

lemma siftdown_mset: "pos < length heap \<Longrightarrow> mset (siftdown key heap startpos pos) = mset heap"
  by (simp add: siftdown_def siftdown_loop_mset)

lemma siftup_loop_hole:
  "pos < length heap \<Longrightarrow> endpos = length heap \<Longrightarrow> siftup_loop key heap endpos pos = (heap', pos') \<Longrightarrow>
     pos' < length heap' \<and> mset (heap'[pos' := x]) = mset (heap[pos := x])"
proof (induction key heap endpos pos arbitrary: heap' pos' rule: siftup_loop.induct)
  case (1 key heap endpos pos)
  let ?c = "2 * pos + 1"
  show ?case
  proof (cases "?c < endpos")
    case True
    define c' where "c' = (if ?c + 1 < endpos \<and> \<not> key (heap ! ?c) < key (heap ! (?c + 1)) then ?c + 1 else ?c)"
    have c': "c' < length heap" "pos < c'" "pos \<noteq> c'"
      using True "1.prems" by (auto simp: c'_def)
    have "siftup_loop key heap endpos pos = siftup_loop key (heap[pos := heap ! c']) endpos c'"
      using True by (subst siftup_loop.simps) (simp add: Let_def c'_def)
    then have rec: "siftup_loop key (heap[pos := heap ! c']) endpos c' = (heap', pos')"
      using "1.prems"(3) by simp
    have "pos' < length heap' \<and> mset (heap'[pos' := x]) = mset (heap[pos := heap ! c', c' := x])"
      using "1.IH"[OF refl True refl c'_def _ _ rec] c' "1.prems" 
      by simp
    moreover have "mset (heap[pos := heap ! c', c' := x]) = mset (heap[pos := x])"
      using c' "1.prems" by (intro mset_update_swap) auto
    ultimately show ?thesis by simp
  next
    case False
    then show ?thesis
      using "1.prems" by (subst (asm) siftup_loop.simps) (auto simp: Let_def)
  qed
qed

lemma siftup_mset: "pos < length heap \<Longrightarrow> mset (siftup key heap pos) = mset heap"
proof -
  assume p: "pos < length heap"
  obtain heap' pos' where s: "siftup_loop key heap (length heap) pos = (heap', pos')"
    by (cases "siftup_loop key heap (length heap) pos")
  from siftup_loop_hole[OF p refl s, of "heap ! pos"]
  have h: "pos' < length heap'" "mset (heap'[pos' := heap ! pos]) = mset heap" by simp_all
  show ?thesis
    using h by (simp add: siftup_def Let_def s siftdown_mset)
qed

lemma heappush_mset: "mset (heappush key heap item) = add_mset item (mset heap)"
  by (simp add: heappush_def siftdown_mset)

lemma heappop_mset:
  assumes "heap \<noteq> []"
  shows "\<exists>c heap'. heappop key heap = Inr (c, heap') \<and> mset heap = add_mset c (mset heap')"
proof (cases "butlast heap = []")
  case True
  with assms have "heap = [last heap]"
    by (metis append_butlast_last_id append_Nil)
  then show ?thesis
    using assms True by (simp add: heappop_def Let_def)
next
  case False
  then obtain y ys where b: "butlast heap = y # ys" by (cases "butlast heap") auto
  have h: "heap = (y # ys) @ [last heap]"
    using assms b by (metis append_butlast_last_id)
  have "mset (siftup key ((y # ys)[0 := last heap]) 0) = mset ((y # ys)[0 := last heap])"
    by (intro siftup_mset) simp
  then have "mset heap = add_mset y (mset (siftup key ((y # ys)[0 := last heap]) 0))"
    by (subst h) simp
  then show ?thesis
    using assms b by (simp add: heappop_def Let_def)
qed

section \<open>The search loop: invariant and termination\<close>

lemma get_neighbors_history [simp]:
  "get_neighbors (a\<lparr>cost_history := hs\<rparr>) p = get_neighbors a p"
  by (simp add: get_neighbors_def)

lemma is_open_history [simp]: "is_open (a\<lparr>cost_history := hs\<rparr>) p = is_open a p"
  by (simp add: is_open_def)

lemma record_step_history:
  "record_step (a\<lparr>cost_history := hs\<rparr>) n =
     a\<lparr>cost_history := hs @ [\<lparr>cost_g = node_g n, cost_h = node_h n, cost_f = node_f n,
                               cost_status = node_status n\<rparr>]\<rparr>"
  by (simp add: record_step_def)

lemma get_neighbors_iff:
  "q \<in> set (get_neighbors a p) \<longleftrightarrow>
     is_open a q \<and> q \<in> {(fst p, snd p + 1), (fst p + 1, snd p), (fst p, snd p - 1), (fst p - 1, snd p)}"
  unfolding get_neighbors_def set_filter is_open_def by auto

lemma get_neighbors_open:
  "q \<in> set (get_neighbors a p) \<Longrightarrow> is_open a q \<and> adjacent p q"
  unfolding get_neighbors_iff by (auto simp: adjacent_def)

lemma finite_open_cells: "finite {p. is_open a p}"
proof -
  have "{p. is_open a p} \<subseteq> {0..<astar_height a} \<times> {0..<astar_width a}"
    by (auto simp: is_open_def)
  then show ?thesis
    by (rule finite_subset) simp
qed

lemma step_path_start: "step_path a s s [s]"
  by (simp add: step_path_def)

lemma step_path_extend:
  assumes "step_path a s p ps" "q \<in> set (get_neighbors a p)"
  shows "step_path a s q (ps @ [q])"
proof -
  from assms(2) have q: "is_open a q" "adjacent p q"
    by (simp_all add: get_neighbors_open)
  from assms(1) have ps: "ps \<noteq> []" "hd ps = s" "last ps = p" "list_all (is_open a) (tl ps)"
    "successively adjacent ps"
    by (simp_all add: step_path_def)
  show ?thesis
    using ps q by (simp add: step_path_def successively_append_iff)
qed

lemma open_path_step_path: "open_path a s e ps \<Longrightarrow> step_path a s e ps"
  by (cases ps) (auto simp: open_path_def step_path_def)

lemma step_path_open_path: "is_open a s \<Longrightarrow> step_path a s e ps \<Longrightarrow> open_path a s e ps"
  by (cases ps) (auto simp: open_path_def step_path_def)

lemma heappush_set: "set (heappush key heap item) = insert item (set heap)"
  using heappush_mset[of key heap item] by (metis mset_eq_setD set_mset_add_mset_insert set_mset_mset)

lemma heappush_distinct:
  "distinct heap \<Longrightarrow> item \<notin> set heap \<Longrightarrow> distinct (heappush key heap item)"
  using heappush_mset[of key heap item]
  by (metis distinct.simps(2) mset.simps(2) mset_eq_imp_distinct_iff)

lemma heappop_distinct:
  assumes "heap \<noteq> []" "distinct heap"
  obtains c heap' where "heappop key heap = Inr (c, heap')" "set heap = insert c (set heap')"
    "c \<notin> set heap'" "distinct heap'"
proof -
  from heappop_mset[OF assms(1), of key] obtain c heap' where
    p: "heappop key heap = Inr (c, heap')" and m: "mset heap = add_mset c (mset heap')"
    by blast
  from m have m': "mset heap = mset (c # heap')" by simp
  then have "distinct (c # heap')" using assms(2) by (metis mset_eq_imp_distinct_iff)
  moreover have "set heap = set (c # heap')" using m' by (rule mset_eq_setD)
  ultimately show ?thesis using p that by auto
qed

lemma node_ok_history [simp]:
  "node_ok (a\<lparr>cost_history := hs\<rparr>) s cl nd p n = node_ok a s cl nd p n"
  by (simp add: node_ok_def cong: option.case_cong)

lemma find_inv_history [simp]:
  "find_inv (a\<lparr>cost_history := hs\<rparr>) s e ol cl nd = find_inv a s e ol cl nd"
  by (simp add: find_inv_def)

lemma node_ok_cell: "node_ok a s cl nd p n \<Longrightarrow> p = s \<or> is_open a p"
  by (auto simp: node_ok_def split: option.splits dest: get_neighbors_open)

lemma node_ok_mono:
  assumes "node_ok a s cl nd p n" "cl \<subseteq> cl'" "\<And>q. q \<in> cl \<Longrightarrow> nd' q = nd q"
  shows "node_ok a s cl' nd' p n"
  using assms by (cases "node_parent n") (auto simp: node_ok_def)

lemma find_inv_init:
  "find_inv a s e (heappush key [] s) {}
     [s \<mapsto> \<lparr>node_pos = s, node_g = 0, node_h = hh, node_f = ff, node_parent = None,
             node_status = ''evaluating''\<rparr>]"
  by (auto simp: find_inv_def node_ok_def heappush_set heappush_distinct split: if_splits)

lemma find_inv_dom_cells:
  assumes "find_inv a s e ol cl nd" "p \<in> dom nd"
  shows "p \<in> insert s {p. is_open a p}"
proof -
  from assms obtain n where n: "nd p = Some n" by auto
  with assms(1) have "node_ok a s cl nd p n"
    unfolding find_inv_def by blast
  then show ?thesis
    using node_ok_cell by blast
qed

lemma find_inv_pop:
  assumes "find_inv a s e ol cl nd" "set ol = insert c (set ol')" "c \<notin> set ol'" "distinct ol'"
    "c \<noteq> e"
  shows "find_inv a s e ol' (insert c cl) nd"
proof -
  have "c \<in> dom nd" using assms(1,2) by (auto simp: find_inv_def)
  then have c: "c \<in> insert s {p. is_open a p}"
    using assms(1) by (rule find_inv_dom_cells[rotated])
  have "\<forall>p n. nd p = Some n \<longrightarrow> node_ok a s (insert c cl) nd p n"
    using assms(1) unfolding find_inv_def by (blast intro: node_ok_mono)
  moreover have "set ol' \<inter> insert c cl = {}" "dom nd = set ol' \<union> insert c cl"
    "insert c cl \<subseteq> insert s {p. is_open a p}" "e \<notin> insert c cl"
    using assms c unfolding find_inv_def by auto
  ultimately show ?thesis
    using assms(4) unfolding find_inv_def by blast
qed

lemma open_refs_pos:
  assumes "\<forall>p n. nd p = Some n \<longrightarrow> node_pos n = p" "set ol \<subseteq> dom nd"
  shows "map (\<lambda>r. node_pos (the (nd r))) ol = ol"
  using assms by (intro map_idI) auto

lemma relax_inv:
  assumes inv: "find_inv a s e ol cl nd" and c: "c \<in> cl" and nb: "nb \<in> set (get_neighbors a c)"
  shows "find_inv a s e (snd (relax e c cl (nd, ol) nb)) cl (fst (relax e c cl (nd, ol) nb))"
proof -
  from inv have ok: "\<And>p n. nd p = Some n \<Longrightarrow> node_ok a s cl nd p n"
    and dom: "dom nd = set ol \<union> cl" and dis: "distinct ol" "set ol \<inter> cl = {}"
    and cl: "cl \<subseteq> insert s {p. is_open a p}" "e \<notin> cl"
    unfolding find_inv_def by blast+
  from c dom obtain m where m: "nd c = Some m" by auto
  have gm: "0 \<le> node_g m" using ok[OF m] by (simp add: node_ok_def)
  define tg where "tg = node_g m + 1"
  show ?thesis
  proof (cases "nb \<in> cl \<or> (nd nb \<noteq> None \<and> tg \<ge> node_g (the (nd nb)))")
    case True
    then have "relax e c cl (nd, ol) nb = (nd, ol)"
      using m by (auto simp: relax_def Let_def tg_def)
    then show ?thesis using inv by simp
  next
    case False
    then have nbcl: "nb \<notin> cl" and upd: "nd nb = None \<or> tg < node_g (the (nd nb))" by auto
    define neighbor where "neighbor =
       (case nd nb of
          None \<Rightarrow> \<lparr>node_pos = nb, node_g = tg, node_h = heuristic nb e,
                    node_f = tg + heuristic nb e, node_parent = Some c,
                    node_status = ''evaluating''\<rparr>
        | Some n \<Rightarrow> n\<lparr>node_parent := Some c, node_g := tg, node_h := heuristic nb e,
                      node_f := tg + heuristic nb e\<rparr>)"
    define nd' where "nd' = nd(nb \<mapsto> neighbor)"
    define ol' where "ol' = (if nb \<notin> set ol then heappush (fkey nd') ol nb else ol)"
    have cnb: "c \<noteq> nb" using c nbcl by auto
    have nok: "node_ok a s cl nd' nb neighbor"
    proof (cases "nd nb")
      case None
      then show ?thesis
        using c nb m cnb gm by (simp add: neighbor_def node_ok_def nd'_def tg_def)
    next
      case (Some n0)
      from ok[OF Some] have "node_pos n0 = nb" "node_status n0 = ''evaluating''"
        by (simp_all add: node_ok_def)
      then show ?thesis
        using Some c nb m cnb gm by (simp add: neighbor_def node_ok_def nd'_def tg_def)
    qed
    have ok': "\<And>p n. nd' p = Some n \<Longrightarrow> node_ok a s cl nd' p n"
    proof -
      fix p n assume pn: "nd' p = Some n"
      show "node_ok a s cl nd' p n"
      proof (cases "p = nb")
        case True
        then show ?thesis using pn nok by (simp add: nd'_def)
      next
        case False
        then have "nd p = Some n" using pn by (simp add: nd'_def)
        from ok[OF this] show ?thesis
          by (rule node_ok_mono) (use nbcl in \<open>auto simp: nd'_def\<close>)
      qed
    qed
    have pos': "\<forall>p n. nd' p = Some n \<longrightarrow> node_pos n = p"
      using ok' by (auto simp: node_ok_def)
    have "set ol \<subseteq> dom nd'" using dom by (auto simp: nd'_def)
    with pos' have refs: "map (\<lambda>r. node_pos (the (nd' r))) ol = ol"
      by (rule open_refs_pos)
    have "relax e c cl (nd, ol) nb =
            (nd', if nb \<notin> set (map (\<lambda>r. node_pos (the (nd' r))) ol)
                  then heappush (fkey nd') ol nb else ol)"
    proof (cases "nd nb")
      case None
      then show ?thesis
        using nbcl m by (simp add: relax_def Let_def nd'_def neighbor_def tg_def)
    next
      case (Some n0)
      then have "\<not> node_g n0 \<le> node_g m + 1" using upd by (simp add: tg_def)
      then show ?thesis
        using Some nbcl m by (simp add: relax_def Let_def nd'_def neighbor_def tg_def)
    qed
    then have r: "relax e c cl (nd, ol) nb = (nd', ol')"
      unfolding refs ol'_def .
    have set': "set ol' = insert nb (set ol)"
      by (auto simp: ol'_def heappush_set)
    have dis': "distinct ol'"
      using dis by (auto simp: ol'_def heappush_distinct)
    have "dom nd' = set ol' \<union> cl" using dom set' by (auto simp: nd'_def)
    moreover have "set ol' \<inter> cl = {}" using dis set' nbcl by auto
    ultimately have "find_inv a s e ol' cl nd'"
      using dis' cl ok' unfolding find_inv_def by blast
    then show ?thesis by (simp add: r)
  qed
qed

lemma relax_fold_inv:
  assumes "find_inv a s e (snd st) cl (fst st)" "c \<in> cl" "set nbs \<subseteq> set (get_neighbors a c)"
  shows "find_inv a s e (snd (foldl (relax e c cl) st nbs)) cl (fst (foldl (relax e c cl) st nbs))"
  using assms
proof (induction nbs arbitrary: st)
  case Nil
  then show ?case by simp
next
  case (Cons nb nbs)
  have "find_inv a s e (snd (relax e c cl st nb)) cl (fst (relax e c cl st nb))"
    using relax_inv[of a s e "snd st" cl "fst st" c nb] Cons.prems by simp
  then show ?case
    using Cons.IH[of "relax e c cl st nb"] Cons.prems by simp
qed


lemma reconstruct_chain:
  assumes ok: "\<And>p n. nd p = Some n \<Longrightarrow> node_ok a s cl nd p n"
  shows "nd p = Some n \<Longrightarrow>
    \<exists>ch. reconstruct nd (Some p) acc = Some (acc @ p # ch) \<and> set ch \<subseteq> cl \<and>
         step_path a s p (rev (p # ch))"
proof (induction "nat (node_g n)" arbitrary: p n acc rule: less_induct)
  case less
  from ok[OF less.prems] have n: "node_pos n = p" "0 \<le> node_g n"
    by (simp_all add: node_ok_def)
  have unf: "reconstruct nd (Some p) acc = reconstruct nd (node_parent n) (acc @ [p])"
    using less.prems n by (subst reconstruct.simps) simp
  show ?case
  proof (cases "node_parent n")
    case None
    with ok[OF less.prems] have "p = s" by (simp add: node_ok_def)
    moreover have "reconstruct nd (node_parent n) (acc @ [p]) = Some (acc @ [p])"
      using None by (subst reconstruct.simps) simp
    ultimately show ?thesis
      using unf by (simp add: step_path_start)
  next
    case (Some q)
    with ok[OF less.prems] obtain m where q: "q \<in> cl" "p \<in> set (get_neighbors a q)"
      "nd q = Some m" "node_g n = node_g m + 1"
      by (auto simp: node_ok_def)
    from ok[OF q(3)] have "0 \<le> node_g m" by (simp add: node_ok_def)
    then have "nat (node_g m) < nat (node_g n)" using q(4) by simp
    from less.hyps[OF this q(3), of "acc @ [p]"] obtain ch where
      ch: "reconstruct nd (Some q) (acc @ [p]) = Some ((acc @ [p]) @ q # ch)" "set ch \<subseteq> cl"
        "step_path a s q (rev (q # ch))"
      by blast
    have "step_path a s p (rev (p # q # ch))"
      using step_path_extend[OF ch(3) q(2)] by simp
    then show ?thesis
      using unf Some ch(1,2) q(1) by auto
  qed
qed

lemma generate_path_costs_Nil [simp]: "generate_path_costs [] e = []"
  by (simp add: generate_path_costs_def)

lemma find_loop_total:
  assumes "find_inv a s e ol cl nd"
  shows "\<exists>cl' path recs.
     (\<forall>hs. find_loop (a\<lparr>cost_history := hs\<rparr>) e ol cl nd =
        Some (Inr (a\<lparr>cost_history := hs @ recs\<rparr>, cl', path, generate_path_costs path e))) \<and>
     cl \<subseteq> cl' \<and> finite cl' \<and> card cl' = card cl + length recs \<and>
     list_all (\<lambda>c. cost_status c = ''evaluating'') recs \<and>
     (path = [] \<or> step_path a s e path \<and> e \<notin> set (butlast path))"
  using assms
proof (induction "card (insert s {p. is_open a p} - cl)" arbitrary: ol cl nd rule: less_induct)
  case less
  note inv = less.prems
  from inv have fin: "finite cl"
    unfolding find_inv_def using finite_open_cells[of a] by (meson finite_insert finite_subset)
  show ?case
  proof (cases "ol = []")
    case True
    have "\<forall>hs. find_loop (a\<lparr>cost_history := hs\<rparr>) e ol cl nd =
        Some (Inr (a\<lparr>cost_history := hs @ []\<rparr>, cl, [], generate_path_costs [] e))"
      using True by (subst find_loop.simps) simp
    then show ?thesis
      using fin by (intro exI[of _ cl] exI[of _ "[]"]) simp
  next
    case False
    from inv have dis: "distinct ol" and dom: "dom nd = set ol \<union> cl"
      and ok: "\<And>p n. nd p = Some n \<Longrightarrow> node_ok a s cl nd p n"
      and ecl: "e \<notin> cl" and olcl: "set ol \<inter> cl = {}"
      unfolding find_inv_def by blast+
    from heappop_distinct[OF False dis, of "fkey nd"] obtain c ol' where
      pop: "heappop (fkey nd) ol = Inr (c, ol')" and sol: "set ol = insert c (set ol')"
      and c': "c \<notin> set ol'" "distinct ol'"
      by blast
    from sol dom obtain n where n: "nd c = Some n" by auto
    from ok[OF n] have posn: "node_pos n = c" and stn: "node_status n = ''evaluating''"
      by (simp_all add: node_ok_def)
    show ?thesis
    proof (cases "c = e")
      case True
      from reconstruct_chain[of nd a s cl c n "[]", OF ok n] obtain ch where
        ch: "reconstruct nd (Some c) [] = Some (c # ch)" "set ch \<subseteq> cl"
          "step_path a s c (rev (c # ch))"
        by auto
      let ?path = "rev (c # ch)"
      have "\<forall>hs. find_loop (a\<lparr>cost_history := hs\<rparr>) e ol cl nd =
          Some (Inr (a\<lparr>cost_history := hs @ []\<rparr>, cl, ?path, generate_path_costs ?path e))"
        using False pop n posn True ch(1) by (subst find_loop.simps) simp
      moreover have "e \<notin> set (butlast ?path)"
        using ch(2) ecl True by auto
      ultimately show ?thesis
        using fin ch(3) True
        by (intro exI[of _ cl] exI[of _ ?path] exI[of _ "[]"]) simp
    next
      case cne: False
      let ?cl = "insert c cl"
      let ?st = "foldl (relax e c ?cl) (nd, ol') (get_neighbors a c)"
      let ?rec = "\<lparr>cost_g = node_g n, cost_h = node_h n, cost_f = node_f n,
                  cost_status = node_status n\<rparr>"
      have inv1: "find_inv a s e ol' ?cl nd"
        using inv sol c' cne by (rule find_inv_pop)
      have inv2: "find_inv a s e (snd ?st) ?cl (fst ?st)"
        by (rule relax_fold_inv) (use inv1 in simp_all)
      have ccl: "c \<notin> cl" using sol olcl by auto
      have "c \<in> insert s {p. is_open a p}"
        using inv1 unfolding find_inv_def by blast
      then have "card (insert s {p. is_open a p} - ?cl) < card (insert s {p. is_open a p} - cl)"
        using ccl finite_open_cells[of a]
        by (intro psubset_card_mono) auto
      from less.hyps[OF this inv2] obtain cl' path recs where
        run: "\<And>hs. find_loop (a\<lparr>cost_history := hs\<rparr>) e (snd ?st) ?cl (fst ?st) =
               Some (Inr (a\<lparr>cost_history := hs @ recs\<rparr>, cl', path, generate_path_costs path e))"
        and res: "?cl \<subseteq> cl'" "finite cl'" "card cl' = card ?cl + length recs"
          "list_all (\<lambda>c. cost_status c = ''evaluating'') recs"
          "path = [] \<or> step_path a s e path \<and> e \<notin> set (butlast path)"
        by blast
      have step: "\<And>hs. find_loop (a\<lparr>cost_history := hs\<rparr>) e ol cl nd =
          find_loop (a\<lparr>cost_history := hs @ [?rec]\<rparr>) e (snd ?st) ?cl (fst ?st)"
        using False pop n posn cne
        by (subst find_loop.simps) (simp add: Let_def record_step_history)
      have "\<forall>hs. find_loop (a\<lparr>cost_history := hs\<rparr>) e ol cl nd =
          Some (Inr (a\<lparr>cost_history := hs @ (?rec # recs)\<rparr>, cl', path, generate_path_costs path e))"
        using step run by simp
      moreover have "card cl' = card cl + length (?rec # recs)"
        using res(3) ccl fin by simp
      ultimately show ?thesis
        using res stn
        by (intro exI[of _ cl'] exI[of _ path] exI[of _ "?rec # recs"]) simp
    qed
  qed
qed

section \<open>What a call of \<open>find_path\<close> returns\<close>

lemma find_search_total:
  "\<exists>cl path recs.
     (\<forall>hs. find_search (a\<lparr>cost_history := hs\<rparr>) s e =
        Some (Inr (a\<lparr>cost_history := hs @ recs\<rparr>, cl, path, generate_path_costs path e))) \<and>
     finite cl \<and> card cl = length recs \<and>
     list_all (\<lambda>c. cost_status c = ''evaluating'') recs \<and>
     (path = [] \<or> step_path a s e path \<and> e \<notin> set (butlast path))"
proof -
  let ?nd = "[s \<mapsto> \<lparr>node_pos = s, node_g = 0, node_h = heuristic s e,
                      node_f = 0 + heuristic s e, node_parent = None,
                      node_status = ''evaluating''\<rparr>]"
  have "find_inv a s e (heappush (fkey ?nd) [] s) {} ?nd"
    by (rule find_inv_init)
  from find_loop_total[OF this] show ?thesis
    unfolding find_search_def Let_def by simp
qed

lemma find_path_total:
  "\<exists>path recs.
     (\<forall>hs. find_path (a\<lparr>cost_history := hs\<rparr>) s e =
        Some (Inr (a\<lparr>cost_history := hs @ recs\<rparr>, path, generate_path_costs path e))) \<and>
     (path = [] \<or> step_path a s e path \<and> e \<notin> set (butlast path))"
proof -
  from find_search_total[of a s e] obtain cl path recs where
    "\<And>hs. find_search (a\<lparr>cost_history := hs\<rparr>) s e =
        Some (Inr (a\<lparr>cost_history := hs @ recs\<rparr>, cl, path, generate_path_costs path e))"
    "path = [] \<or> step_path a s e path \<and> e \<notin> set (butlast path)"
    by blast
  then show ?thesis
    by (intro exI[of _ path] exI[of _ recs]) (simp add: find_path_def)
qed

lemma generate_path_costs_nth:
  assumes "i < length path"
  shows "generate_path_costs path e ! i =
     \<lparr>cost_g = int i, cost_h = heuristic (path ! i) e, cost_f = int i + heuristic (path ! i) e,
      cost_status = (if path ! i = e then ''reached'' else ''on_path'')\<rparr>"
  using assms by (simp add: generate_path_costs_def nth_enumerate_eq)

lemma length_generate_path_costs [simp]: "length (generate_path_costs path e) = length path"
  by (simp add: generate_path_costs_def)

lemma find_path_projE:
  assumes "map_option (map_sum id (\<lambda>r. (cost_history (fst r), snd r))) (find_path a s e)
           = Some (Inr (H, P, C))"
  shows "\<exists>a'. find_path a s e = Some (Inr (a', P, C)) \<and> cost_history a' = H"
proof (cases "find_path a s e")
  case None
  with assms show ?thesis by simp
next
  case (Some x)
  with assms show ?thesis by (cases x) auto
qed

lemma history_only_grows:
  assumes "find_path a s e = Some (Inr (a', r))"
  shows "\<exists>recs. a' = a\<lparr>cost_history := cost_history a @ recs\<rparr>"
proof -
  from find_path_total[of a s e] obtain path recs where
    "find_path (a\<lparr>cost_history := cost_history a\<rparr>) s e =
        Some (Inr (a\<lparr>cost_history := cost_history a @ recs\<rparr>, path, generate_path_costs path e))"
    by blast
  with assms show ?thesis by auto
qed

lemma find_search_path:
  assumes "find_path a s e = Some (Inr (a', r))"
  shows "\<exists>cl recs. find_search a s e = Some (Inr (a', cl, r)) \<and>
           a' = a\<lparr>cost_history := cost_history a @ recs\<rparr> \<and> length recs = card cl \<and>
           list_all (\<lambda>c. cost_status c = ''evaluating'') recs"
proof -
  from find_search_total[of a s e] obtain cl path recs where
    run: "find_search (a\<lparr>cost_history := cost_history a\<rparr>) s e =
        Some (Inr (a\<lparr>cost_history := cost_history a @ recs\<rparr>, cl, path, generate_path_costs path e))"
    and res: "card cl = length recs" "list_all (\<lambda>c. cost_status c = ''evaluating'') recs"
    by blast
  from run assms have "a' = a\<lparr>cost_history := cost_history a @ recs\<rparr>"
    "r = (path, generate_path_costs path e)"
    by (simp_all add: find_path_def)
  with run res show ?thesis by auto
qed

lemma scenario_run:
  "map_option (map_sum id (\<lambda>r. (cost_history (fst r), snd r)))
     (find_path (AStar_init scenario_grid) (1, 0) (1, 4)) =
   Some (Inr ([\<lparr>cost_g = 0, cost_h = 4, cost_f = 4, cost_status = ''evaluating''\<rparr>,
               \<lparr>cost_g = 1, cost_h = 3, cost_f = 4, cost_status = ''evaluating''\<rparr>,
               \<lparr>cost_g = 2, cost_h = 2, cost_f = 4, cost_status = ''evaluating''\<rparr>,
               \<lparr>cost_g = 3, cost_h = 1, cost_f = 4, cost_status = ''evaluating''\<rparr>],
              [(1, 0), (1, 1), (1, 2), (1, 3), (1, 4)],
              [\<lparr>cost_g = 0, cost_h = 4, cost_f = 4, cost_status = ''on_path''\<rparr>,
               \<lparr>cost_g = 1, cost_h = 3, cost_f = 4, cost_status = ''on_path''\<rparr>,
               \<lparr>cost_g = 2, cost_h = 2, cost_f = 4, cost_status = ''on_path''\<rparr>,
               \<lparr>cost_g = 3, cost_h = 1, cost_f = 4, cost_status = ''on_path''\<rparr>,
               \<lparr>cost_g = 4, cost_h = 0, cost_f = 4, cost_status = ''reached''\<rparr>]))"
  by code_simp

lemma scenario_rerun:
  "map_option (map_sum id (\<lambda>r. (cost_history (fst r), snd r)))
     (find_path ((AStar_init scenario_grid)
        \<lparr>cost_history := [\<lparr>cost_g = 0, cost_h = 4, cost_f = 4, cost_status = ''evaluating''\<rparr>,
               \<lparr>cost_g = 1, cost_h = 3, cost_f = 4, cost_status = ''evaluating''\<rparr>,
               \<lparr>cost_g = 2, cost_h = 2, cost_f = 4, cost_status = ''evaluating''\<rparr>,
               \<lparr>cost_g = 3, cost_h = 1, cost_f = 4, cost_status = ''evaluating''\<rparr>]\<rparr>) (1, 4) (1, 1)) =
   Some (Inr ([\<lparr>cost_g = 0, cost_h = 4, cost_f = 4, cost_status = ''evaluating''\<rparr>,
               \<lparr>cost_g = 1, cost_h = 3, cost_f = 4, cost_status = ''evaluating''\<rparr>,
               \<lparr>cost_g = 2, cost_h = 2, cost_f = 4, cost_status = ''evaluating''\<rparr>,
               \<lparr>cost_g = 3, cost_h = 1, cost_f = 4, cost_status = ''evaluating''\<rparr>,
               \<lparr>cost_g = 0, cost_h = 3, cost_f = 3, cost_status = ''evaluating''\<rparr>,
               \<lparr>cost_g = 1, cost_h = 2, cost_f = 3, cost_status = ''evaluating''\<rparr>,
               \<lparr>cost_g = 2, cost_h = 1, cost_f = 3, cost_status = ''evaluating''\<rparr>],
              [(1, 4), (1, 3), (1, 2), (1, 1)],
              [\<lparr>cost_g = 0, cost_h = 3, cost_f = 3, cost_status = ''on_path''\<rparr>,
               \<lparr>cost_g = 1, cost_h = 2, cost_f = 3, cost_status = ''on_path''\<rparr>,
               \<lparr>cost_g = 2, cost_h = 1, cost_f = 3, cost_status = ''on_path''\<rparr>,
               \<lparr>cost_g = 3, cost_h = 0, cost_f = 3, cost_status = ''reached''\<rparr>]))"
  by code_simp

lemma find_path_unsolvable:
  assumes "is_open a s" "\<not> solvable a s e"
  shows "\<exists>a'. find_path a s e = Some (Inr (a', [], []))"
proof -
  from find_path_total[of a s e] obtain path recs where
    run: "\<And>hs. find_path (a\<lparr>cost_history := hs\<rparr>) s e =
        Some (Inr (a\<lparr>cost_history := hs @ recs\<rparr>, path, generate_path_costs path e))"
    and p: "path = [] \<or> step_path a s e path \<and> e \<notin> set (butlast path)"
    by blast
  have "path = []"
  proof (rule ccontr)
    assume "path \<noteq> []"
    with p have "step_path a s e path" by simp
    with assms(1) have "open_path a s e path" by (rule step_path_open_path)
    with assms(2) show False by (auto simp: solvable_def)
  qed
  with run[of "cost_history a"] show ?thesis by simp
qed

section \<open>The claims about the search\<close>

text \<open>
  Claim C1 (a returned path is a shortest path) fails on the code. On \<open>detour_grid\<close>,
  from \<open>(6, 1)\<close> to \<open>(0, 0)\<close>, \<open>find_path\<close> returns a path of twelve cells, while a
  4-connected path of ten open cells joins the same two cells. The relaxation lowers
  the \<open>f\<close> of a node that is already in the heap and leaves the heap as it is, so
  \<open>heappop\<close> no longer returns a node of least \<open>f\<close>.
\<close>

theorem detour_not_shortest:
  "map_option (map_sum id (\<lambda>r. fst (snd r))) (find_path (AStar_init detour_grid) (6, 1) (0, 0)) =
     Some (Inr [(6, 1), (5, 1), (5, 0), (4, 0), (3, 0), (2, 0), (2, 1), (2, 2), (1, 2), (0, 2),
                (0, 1), (0, 0)]) \<and>
   open_path (AStar_init detour_grid) (6, 1) (0, 0)
     [(6, 1), (5, 1), (5, 2), (4, 2), (3, 2), (2, 2), (1, 2), (0, 2), (0, 1), (0, 0)]"
  by code_simp

text \<open>
  Claim C2 as stated (whenever no 4-connected path of open cells joins start and end,
  \<open>find_path\<close> returns the empty path and the empty timeline) fails where the start is a
  wall: the search never examines the start cell. On the row \<open>[1, 0]\<close> no path of open
  cells leaves the wall \<open>(0, 0)\<close>, and \<open>find_path\<close> returns the path \<open>[(0, 0), (0, 1)]\<close>.
\<close>

theorem wall_start_counterexample:
  "\<not> solvable (AStar_init wall_start_grid) (0, 0) (0, 1) \<and>
   map_option (map_sum id snd) (find_path (AStar_init wall_start_grid) (0, 0) (0, 1)) =
     Some (Inr ([(0, 0), (0, 1)],
                [\<lparr>cost_g = 0, cost_h = 1, cost_f = 1, cost_status = ''on_path''\<rparr>,
                 \<lparr>cost_g = 1, cost_h = 0, cost_f = 1, cost_status = ''reached''\<rparr>]))"
proof
  show "\<not> solvable (AStar_init wall_start_grid) (0, 0) (0, 1)"
  proof
    assume "solvable (AStar_init wall_start_grid) (0, 0) (0, 1)"
    then obtain ps where "open_path (AStar_init wall_start_grid) (0, 0) (0, 1) ps"
      by (auto simp: solvable_def)
    then have "is_open (AStar_init wall_start_grid) (0, 0)"
      by (cases ps) (auto simp: open_path_def)
    then show False
      by (simp add: is_open_def AStar_init_def wall_start_grid_def array_of_def cell_def)
  qed
  show "map_option (map_sum id snd) (find_path (AStar_init wall_start_grid) (0, 0) (0, 1)) =
     Some (Inr ([(0, 0), (0, 1)],
                [\<lparr>cost_g = 0, cost_h = 1, cost_f = 1, cost_status = ''on_path''\<rparr>,
                 \<lparr>cost_g = 1, cost_h = 0, cost_f = 1, cost_status = ''reached''\<rparr>]))"
    by code_simp
qed

text \<open>
  Claim C2, amended: for every grid, start and end such that no path leads from start to
  end by moves between 4-adjacent cells into open cells (nothing is asked of the start
  cell itself), \<open>find_path\<close> terminates and returns the empty path and the empty cost
  timeline. When the start is an open cell these are the 4-connected paths of open
  cells of the claim (\<open>step_path_open_path\<close>, \<open>open_path_step_path\<close>).
\<close>

theorem find_path_unreachable:
  assumes "\<not> (\<exists>ps. step_path a s e ps)"
  shows "\<exists>a'. find_path a s e = Some (Inr (a', [], []))"
proof -
  from find_path_total[of a s e] obtain path recs where
    run: "\<And>hs. find_path (a\<lparr>cost_history := hs\<rparr>) s e =
        Some (Inr (a\<lparr>cost_history := hs @ recs\<rparr>, path, generate_path_costs path e))"
    and p: "path = [] \<or> step_path a s e path \<and> e \<notin> set (butlast path)"
    by blast
  from p assms have "path = []" by blast
  with run[of "cost_history a"] show ?thesis by simp
qed

theorem find_path_unreachable_witness:
  "\<not> (\<exists>ps. step_path (AStar_init blocked_grid) (0, 0) (0, 2) ps) \<and>
   (\<exists>a'. find_path (AStar_init blocked_grid) (0, 0) (0, 2) = Some (Inr (a', [], [])))"
proof -
  let ?a = "AStar_init blocked_grid"
  have no: "\<not> (adjacent (0, 0) q \<and> is_open ?a q)" for q
  proof
    assume h: "adjacent (0, 0) q \<and> is_open ?a q"
    obtain r c where q: "q = (r, c)" by (cases q)
    from h have "r = 0 \<and> c = 1"
      by (auto simp: q adjacent_def is_open_def AStar_init_def blocked_grid_def array_of_def)
    with h show False
      by (simp add: q is_open_def AStar_init_def blocked_grid_def array_of_def cell_def)
  qed
  have "\<not> step_path ?a (0, 0) (0, 2) ps" for ps
  proof
    assume sp: "step_path ?a (0, 0) (0, 2) ps"
    then obtain rest where ps: "ps = (0, 0) # rest"
      by (cases ps) (auto simp: step_path_def)
    show False
    proof (cases rest)
      case Nil
      with sp ps show False by (simp add: step_path_def)
    next
      case (Cons q rest')
      with sp ps have "adjacent (0, 0) q \<and> is_open ?a q"
        by (simp add: step_path_def)
      with no show False by blast
    qed
  qed
  then have "\<not> (\<exists>ps. step_path ?a (0, 0) (0, 2) ps)" by blast
  with find_path_unreachable[of ?a "(0, 0)" "(0, 2)"] show ?thesis by blast
qed

text \<open>
  Claim C3: whenever \<open>find_path\<close> returns a non-empty path of length \<open>n\<close>, the cost
  timeline has length \<open>n\<close>, and its entry \<open>i\<close> has \<open>g = i\<close>, \<open>h\<close> the Manhattan distance
  from \<open>path[i]\<close> to the end (the sum of the absolute differences of the rows and of
  the columns), \<open>f = g + h\<close>, and the status \<open>reached\<close> exactly when \<open>i = n - 1\<close>,
  \<open>on_path\<close> otherwise.
\<close>

theorem path_costs_consistent:
  assumes "find_path a s e = Some (Inr (a', path, costs))" "path \<noteq> []"
  shows "length costs = length path \<and>
     (\<forall>i<length path.
        cost_g (costs ! i) = int i \<and>
        cost_h (costs ! i) = \<bar>fst (path ! i) - fst e\<bar> + \<bar>snd (path ! i) - snd e\<bar> \<and>
        cost_f (costs ! i) = cost_g (costs ! i) + cost_h (costs ! i) \<and>
        (cost_status (costs ! i) = ''reached'' \<longleftrightarrow> i = length path - 1) \<and>
        (i \<noteq> length path - 1 \<longrightarrow> cost_status (costs ! i) = ''on_path''))"
proof -
  from find_path_total[of a s e] obtain path' recs where
    run: "\<And>hs. find_path (a\<lparr>cost_history := hs\<rparr>) s e =
        Some (Inr (a\<lparr>cost_history := hs @ recs\<rparr>, path', generate_path_costs path' e))"
    and p: "path' = [] \<or> step_path a s e path' \<and> e \<notin> set (butlast path')"
    by blast
  from run[of "cost_history a"] assms(1) have eq: "path' = path" "costs = generate_path_costs path e"
    by simp_all
  from p eq assms(2) have sp: "step_path a s e path" and nb: "e \<notin> set (butlast path)"
    by simp_all
  from sp have last: "last path = e" by (simp add: step_path_def)
  have at: "path ! i = e \<longleftrightarrow> i = length path - 1" if "i < length path" for i
  proof (cases "i = length path - 1")
    case True
    then show ?thesis using last assms(2) by (simp add: last_conv_nth)
  next
    case False
    with that have "i < length (butlast path)" by simp
    then have "butlast path ! i \<in> set (butlast path)" by (rule nth_mem)
    moreover have "butlast path ! i = path ! i"
      using \<open>i < length (butlast path)\<close> by (simp add: nth_butlast)
    ultimately show ?thesis using nb False by auto
  qed
  show ?thesis
    using at by (simp add: eq generate_path_costs_nth heuristic_def)
qed

theorem path_costs_consistent_witness:
  "\<exists>a' path costs.
     find_path (AStar_init scenario_grid) (1, 0) (1, 4) = Some (Inr (a', path, costs)) \<and>
     path = [(1, 0), (1, 1), (1, 2), (1, 3), (1, 4)] \<and>
     length costs = length path \<and>
     (\<forall>i<length path.
        cost_g (costs ! i) = int i \<and>
        cost_h (costs ! i) = \<bar>fst (path ! i) - 1\<bar> + \<bar>snd (path ! i) - 4\<bar> \<and>
        cost_f (costs ! i) = cost_g (costs ! i) + cost_h (costs ! i) \<and>
        (cost_status (costs ! i) = ''reached'' \<longleftrightarrow> i = length path - 1) \<and>
        (i \<noteq> length path - 1 \<longrightarrow> cost_status (costs ! i) = ''on_path''))"
proof -
  from find_path_projE[OF scenario_run] obtain a' costs where
    run: "find_path (AStar_init scenario_grid) (1, 0) (1, 4) =
            Some (Inr (a', [(1, 0), (1, 1), (1, 2), (1, 3), (1, 4)], costs))"
    by blast
  have ne: "[(1, 0), (1, 1), (1, 2), (1, 3), (1, 4)] \<noteq> ([] :: pos list)" by simp
  let ?path = "[(1, 0), (1, 1), (1, 2), (1, 3), (1, 4)] :: pos list"
  from path_costs_consistent[OF run ne]
  have "length costs = length ?path \<and>
     (\<forall>i<length ?path.
        cost_g (costs ! i) = int i \<and>
        cost_h (costs ! i) = \<bar>fst (?path ! i) - 1\<bar> + \<bar>snd (?path ! i) - 4\<bar> \<and>
        cost_f (costs ! i) = cost_g (costs ! i) + cost_h (costs ! i) \<and>
        (cost_status (costs ! i) = ''reached'' \<longleftrightarrow> i = length ?path - 1) \<and>
        (i \<noteq> length ?path - 1 \<longrightarrow> cost_status (costs ! i) = ''on_path''))"
    by simp
  with run show ?thesis by blast
qed

text \<open>
  Claim C9: \<open>find_path\<close> leaves the array and the stored height and width as they are;
  it changes only \<open>cost_history\<close>, by appending one record for each expanded node (the
  positions the loop has put in \<open>closed_set\<close>: every node popped that is not the goal),
  and never clears it: after two calls on the same instance the history is the old one
  followed by the records of the first and then of the second call.
\<close>

theorem find_path_frame_effect:
  assumes "find_path a s e = Some (Inr (a1, r1))" "find_path a1 s' e' = Some (Inr (a2, r2))"
  shows "\<exists>recs1 recs2 cl1 cl2.
     a1 = a\<lparr>cost_history := cost_history a @ recs1\<rparr> \<and>
     a2 = a\<lparr>cost_history := cost_history a @ recs1 @ recs2\<rparr> \<and>
     astar_maze a1 = astar_maze a \<and> astar_height a1 = astar_height a \<and>
     astar_width a1 = astar_width a \<and>
     find_search a s e = Some (Inr (a1, cl1, r1)) \<and> length recs1 = card cl1 \<and>
     find_search a1 s' e' = Some (Inr (a2, cl2, r2)) \<and> length recs2 = card cl2 \<and>
     list_all (\<lambda>c. cost_status c = ''evaluating'') (recs1 @ recs2)"
proof -
  from find_search_path[OF assms(1)] obtain cl1 recs1 where
    1: "find_search a s e = Some (Inr (a1, cl1, r1))"
       "a1 = a\<lparr>cost_history := cost_history a @ recs1\<rparr>" "length recs1 = card cl1"
       "list_all (\<lambda>c. cost_status c = ''evaluating'') recs1"
    by blast
  from find_search_path[OF assms(2)] obtain cl2 recs2 where
    2: "find_search a1 s' e' = Some (Inr (a2, cl2, r2))"
       "a2 = a1\<lparr>cost_history := cost_history a1 @ recs2\<rparr>" "length recs2 = card cl2"
       "list_all (\<lambda>c. cost_status c = ''evaluating'') recs2"
    by blast
  have "a2 = a\<lparr>cost_history := cost_history a @ recs1 @ recs2\<rparr>"
    using 1(2) 2(2) by simp
  moreover have "astar_maze a1 = astar_maze a" "astar_height a1 = astar_height a"
    "astar_width a1 = astar_width a"
    using 1(2) by simp_all
  ultimately show ?thesis
    using 1 2 by (intro exI[of _ recs1] exI[of _ recs2] exI[of _ cl1] exI[of _ cl2]) simp
qed

theorem find_path_frame_effect_witness:
  "\<exists>a1 a2 r1 r2 recs1 recs2 cl1 cl2.
     find_path (AStar_init scenario_grid) (1, 0) (1, 4) = Some (Inr (a1, r1)) \<and>
     find_path a1 (1, 4) (1, 1) = Some (Inr (a2, r2)) \<and>
     a1 = (AStar_init scenario_grid)\<lparr>cost_history := cost_history (AStar_init scenario_grid) @ recs1\<rparr> \<and>
     a2 = (AStar_init scenario_grid)\<lparr>cost_history := cost_history (AStar_init scenario_grid) @ recs1 @ recs2\<rparr> \<and>
     length recs1 = 4 \<and> length recs2 = 3 \<and>
     find_search (AStar_init scenario_grid) (1, 0) (1, 4) = Some (Inr (a1, cl1, r1)) \<and>
     length recs1 = card cl1 \<and>
     find_search a1 (1, 4) (1, 1) = Some (Inr (a2, cl2, r2)) \<and> length recs2 = card cl2"
proof -
  let ?a = "AStar_init scenario_grid"
  from find_path_projE[OF scenario_run] obtain a1 r1 where
    f1: "find_path ?a (1, 0) (1, 4) = Some (Inr (a1, r1))" and
    h1: "cost_history a1 = [\<lparr>cost_g = 0, cost_h = 4, cost_f = 4, cost_status = ''evaluating''\<rparr>,
               \<lparr>cost_g = 1, cost_h = 3, cost_f = 4, cost_status = ''evaluating''\<rparr>,
               \<lparr>cost_g = 2, cost_h = 2, cost_f = 4, cost_status = ''evaluating''\<rparr>,
               \<lparr>cost_g = 3, cost_h = 1, cost_f = 4, cost_status = ''evaluating''\<rparr>]"
    by blast
  from history_only_grows[OF f1] obtain recs where "a1 = ?a\<lparr>cost_history := cost_history ?a @ recs\<rparr>"
    by blast
  then have a1: "a1 = ?a\<lparr>cost_history := cost_history a1\<rparr>" by simp
  from find_path_projE[OF scenario_rerun] h1 a1 obtain a2 r2 where
    f2: "find_path a1 (1, 4) (1, 1) = Some (Inr (a2, r2))" and
    h2: "length (cost_history a2) = 7"
    by auto
  from find_path_frame_effect[OF f1 f2] obtain recs1 recs2 cl1 cl2 where
    c: "a1 = ?a\<lparr>cost_history := cost_history ?a @ recs1\<rparr>"
     "a2 = ?a\<lparr>cost_history := cost_history ?a @ recs1 @ recs2\<rparr>"
     "find_search ?a (1, 0) (1, 4) = Some (Inr (a1, cl1, r1))" "length recs1 = card cl1"
     "find_search a1 (1, 4) (1, 1) = Some (Inr (a2, cl2, r2))" "length recs2 = card cl2"
    by blast
  have "cost_history ?a = []" by (simp add: AStar_init_def)
  with c(1,2) h1 h2 have "length recs1 = 4" "length recs2 = 3" by auto
  with f1 f2 c show ?thesis by blast
qed

text \<open>
  Claim C10: \<open>find_path\<close> is deterministic. It draws nothing at random, enumerates the
  neighbours in a fixed order, and orders the heap by \<open>f\<close> alone, so it is a function of
  the grid, start and end: a second call on the same instance, and a call on an
  instance with any other cost history, return the same pair of path and cost timeline.
\<close>

theorem find_path_deterministic:
  assumes "find_path a s e = Some (Inr (a1, r))"
  shows "(\<exists>a2. find_path a1 s e = Some (Inr (a2, r))) \<and>
         (\<forall>hs. \<exists>a3. find_path (a\<lparr>cost_history := hs\<rparr>) s e = Some (Inr (a3, r)))"
proof -
  from find_path_total[of a s e] obtain path recs where
    run: "\<And>hs. find_path (a\<lparr>cost_history := hs\<rparr>) s e =
        Some (Inr (a\<lparr>cost_history := hs @ recs\<rparr>, path, generate_path_costs path e))"
    by blast
  from run[of "cost_history a"] assms have
    eq: "a1 = a\<lparr>cost_history := cost_history a @ recs\<rparr>" "r = (path, generate_path_costs path e)"
    by simp_all
  have "find_path a1 s e = Some (Inr (a\<lparr>cost_history := (cost_history a @ recs) @ recs\<rparr>, r))"
    using run[of "cost_history a @ recs"] eq by simp
  moreover have "\<exists>a3. find_path (a\<lparr>cost_history := hs\<rparr>) s e = Some (Inr (a3, r))" for hs
    using run[of hs] eq by simp
  ultimately show ?thesis by blast
qed

theorem find_path_deterministic_witness:
  "\<exists>a1 a2 r.
     find_path (AStar_init scenario_grid) (1, 0) (1, 4) = Some (Inr (a1, r)) \<and>
     fst r = [(1, 0), (1, 1), (1, 2), (1, 3), (1, 4)] \<and>
     find_path a1 (1, 0) (1, 4) = Some (Inr (a2, r))"
proof -
  from find_path_projE[OF scenario_run] obtain a1 r where
    f1: "find_path (AStar_init scenario_grid) (1, 0) (1, 4) = Some (Inr (a1, r))" and
    r: "fst r = [(1, 0), (1, 1), (1, 2), (1, 3), (1, 4)]"
    by auto
  from find_path_deterministic[OF f1] r f1 show ?thesis by blast
qed

section \<open>Trees of cells\<close>

lemma adjacent_sym: "adjacent p q \<longleftrightarrow> adjacent q p"
  by (auto simp: adjacent_def)

lemma simple_path_mono: "simple_path S a b ps \<Longrightarrow> S \<subseteq> T \<Longrightarrow> simple_path T a b ps"
  by (auto simp: simple_path_def)

lemma simple_path_rev: "simple_path S a b ps \<Longrightarrow> simple_path S b a (rev ps)"
  using adjacent_sym
  by (auto simp: simple_path_def hd_rev last_rev successively_rev elim: successively_mono)

lemma simple_path_loop:
  assumes "simple_path S v v ps"
  shows "ps = [v]"
proof -
  from assms obtain xs where ps: "ps = v # xs"
    by (cases ps) (auto simp: simple_path_def)
  have "xs = []"
  proof (rule ccontr)
    assume "xs \<noteq> []"
    then have "last ps = last xs" "last xs \<in> set xs" by (simp_all add: ps)
    with assms ps show False by (auto simp: simple_path_def)
  qed
  with ps show ?thesis by simp
qed

lemma simple_path_single: "v \<in> S \<Longrightarrow> simple_path S v v [v]"
  by (simp add: simple_path_def)

lemma is_tree_single: "is_tree {v}"
  unfolding is_tree_def
  by (auto intro: simple_path_single dest: simple_path_loop)

lemma pendant_avoided:
  assumes sp: "simple_path (insert v S) a b ps" and ab: "a \<noteq> v" "b \<noteq> v"
    and v: "v \<notin> S" and one: "\<And>u. u \<in> S \<Longrightarrow> adjacent v u \<Longrightarrow> u = c"
  shows "simple_path S a b ps"
proof -
  have "v \<notin> set ps"
  proof
    assume "v \<in> set ps"
    then obtain xs ys where ps: "ps = xs @ v # ys" by (auto dest: split_list)
    from sp ab have xs: "xs \<noteq> []" and ys: "ys \<noteq> []"
      by (auto simp: ps simple_path_def)
    from sp have d: "distinct (xs @ v # ys)" and sub: "set (xs @ v # ys) \<subseteq> insert v S"
      and suc: "successively adjacent (xs @ v # ys)"
      by (simp_all add: ps simple_path_def)
    from suc xs ys have adj: "adjacent (last xs) v" "adjacent v (hd ys)"
      by (auto simp: successively_append_iff successively_Cons)
    have lx: "last xs \<in> set xs" and hy: "hd ys \<in> set ys" using xs ys by simp_all
    with d sub have "last xs \<in> S" "hd ys \<in> S" by auto
    moreover from adj have "adjacent v (last xs)" by (simp add: adjacent_sym)
    ultimately have "last xs = c" "hd ys = c" using adj(2) one by blast+
    with lx hy d show False by auto
  qed
  with sp show ?thesis by (auto simp: simple_path_def)
qed

lemma pendant_first:
  assumes sp: "simple_path (insert v S) v b ps" and b: "b \<noteq> v"
    and one: "\<And>u. u \<in> S \<Longrightarrow> adjacent v u \<Longrightarrow> u = c"
  shows "\<exists>qs. ps = v # qs \<and> simple_path S c b qs"
proof -
  from sp obtain qs where ps: "ps = v # qs"
    by (cases ps) (auto simp: simple_path_def)
  from sp b have qs: "qs \<noteq> []" by (auto simp: ps simple_path_def)
  from sp have d: "v \<notin> set qs" "distinct qs" and sub: "set qs \<subseteq> insert v S"
    and suc: "adjacent v (hd qs)" "successively adjacent qs" and l: "last qs = b"
    using qs by (auto simp: ps simple_path_def successively_Cons)
  from d sub have sub': "set qs \<subseteq> S" by auto
  with qs have "hd qs \<in> S" by auto
  with suc one have "hd qs = c" by auto
  with qs d sub' suc l have "simple_path S c b qs" by (simp add: simple_path_def)
  with ps show ?thesis by blast
qed

lemma pendant_cons:
  assumes "simple_path S c b qs" "v \<notin> S" "adjacent v c"
  shows "simple_path (insert v S) v b (v # qs)"
  using assms by (auto simp: simple_path_def successively_Cons)

lemma is_tree_pendant:
  assumes tree: "is_tree S" and c: "c \<in> S" and v: "v \<notin> S" and adj: "adjacent v c"
    and one: "\<And>u. u \<in> S \<Longrightarrow> adjacent v u \<Longrightarrow> u = c"
  shows "is_tree (insert v S)"
  unfolding is_tree_def
proof (intro ballI)
  fix a b assume a: "a \<in> insert v S" and b: "b \<in> insert v S"
  have uniq: "\<exists>!ps. simple_path S x y ps" if "x \<in> S" "y \<in> S" for x y
    using tree that unfolding is_tree_def by blast
  consider "a \<noteq> v" "b \<noteq> v" | "a = v" "b \<noteq> v" | "a \<noteq> v" "b = v" | "a = v" "b = v"
    by blast
  then show "\<exists>!ps. simple_path (insert v S) a b ps"
  proof cases
    case 1
    with a b have "a \<in> S" "b \<in> S" by auto
    from uniq[OF this] obtain p where p: "simple_path S a b p"
      and u: "\<And>q. simple_path S a b q \<Longrightarrow> q = p" by blast
    show ?thesis
    proof (rule ex1I[of _ p])
      show "simple_path (insert v S) a b p" using p by (rule simple_path_mono) auto
    next
      fix q assume "simple_path (insert v S) a b q"
      then have "simple_path S a b q" using 1 v one by (rule pendant_avoided)
      then show "q = p" by (rule u)
    qed
  next
    case 2
    with b have "b \<in> S" by auto
    from uniq[OF c this] obtain p where p: "simple_path S c b p"
      and u: "\<And>q. simple_path S c b q \<Longrightarrow> q = p" by blast
    show ?thesis
    proof (rule ex1I[of _ "v # p"])
      show "simple_path (insert v S) a b (v # p)"
        using pendant_cons[OF p v adj] 2 by simp
    next
      fix q assume "simple_path (insert v S) a b q"
      with 2 have "simple_path (insert v S) v b q" by simp
      from pendant_first[OF this 2(2) one] obtain qs where "q = v # qs" "simple_path S c b qs"
        by blast
      with u show "q = v # p" by simp
    qed
  next
    case 3
    with a have "a \<in> S" by auto
    from uniq[OF c this] obtain p where p: "simple_path S c a p"
      and u: "\<And>q. simple_path S c a q \<Longrightarrow> q = p" by blast
    show ?thesis
    proof (rule ex1I[of _ "rev (v # p)"])
      show "simple_path (insert v S) a b (rev (v # p))"
        using simple_path_rev[OF pendant_cons[OF p v adj]] 3 by simp
    next
      fix q assume "simple_path (insert v S) a b q"
      with 3 have "simple_path (insert v S) v a (rev q)" by (simp add: simple_path_rev)
      from pendant_first[OF this 3(1) one] obtain qs where "rev q = v # qs" "simple_path S c a qs"
        by blast
      with u have "rev q = v # p" by simp
      then show "q = rev (v # p)" by (metis rev_rev_ident)
    qed
  next
    case 4
    show ?thesis
    proof (rule ex1I[of _ "[v]"])
      show "simple_path (insert v S) a b [v]" using 4 by (simp add: simple_path_single)
    next
      fix q assume "simple_path (insert v S) a b q"
      with 4 show "q = [v]" by (auto dest: simple_path_loop)
    qed
  qed
qed

section \<open>The carving loop: invariant and termination\<close>

lemma cell_set_cell [simp]: "cell (set_cell g p v) q = (if q = p then v else cell g q)"
  by (simp add: cell_def set_cell_def)

lemma shape_set_cell [simp]:
  "nd_rows (set_cell g p v) = nd_rows g" "nd_cols (set_cell g p v) = nd_cols g"
  by (simp_all add: set_cell_def)

lemma in_array_set_cell [simp]: "in_array (set_cell g p v) q = in_array g q"
  by (simp add: in_array_def)

lemma choice_in: "xs \<noteq> [] \<Longrightarrow> choice r xs \<in> set xs"
  by (simp add: choice_def)

lemma unvisited_iff:
  "n \<in> set (unvisited m c) \<longleftrightarrow>
     interior m n \<and> cell (maze_grid m) n = 1 \<and>
     n \<in> {(fst c, snd c + 2), (fst c + 2, snd c), (fst c, snd c - 2), (fst c - 2, snd c)}"
  unfolding unvisited_def set_filter interior_def directions_def by auto

lemma unvisited_empty:
  assumes "unvisited m c = []" "d \<in> set directions" "interior m (fst c + fst d, snd c + snd d)"
  shows "cell (maze_grid m) (fst c + fst d, snd c + snd d) \<noteq> 1"
proof
  assume "cell (maze_grid m) (fst c + fst d, snd c + snd d) = 1"
  with assms(2,3) have "(fst c + fst d, snd c + snd d) \<in> set (unvisited m c)"
    unfolding unvisited_iff by (auto simp: directions_def)
  with assms(1) show False by simp
qed

lemma carve_step_pop:
  "unvisited m (last stack) = [] \<Longrightarrow> carve_step rnd i m stack = (i, m, butlast stack)"
  by (simp add: carve_step_def)

lemma carve_step_push:
  assumes "unvisited m (last stack) \<noteq> []"
  obtains dr dc where
    "(dr, dc) \<in> {(0, 1), (1, 0), (0, -1), (-1, 0)}"
    "interior m (fst (last stack) + 2 * dr, snd (last stack) + 2 * dc)"
    "cell (maze_grid m) (fst (last stack) + 2 * dr, snd (last stack) + 2 * dc) = 1"
    "carve_step rnd i m stack =
       (i + 1,
        m\<lparr>maze_grid := set_cell (set_cell (maze_grid m)
             (fst (last stack) + dr, snd (last stack) + dc) 0)
             (fst (last stack) + 2 * dr, snd (last stack) + 2 * dc) 0\<rparr>,
        stack @ [(fst (last stack) + 2 * dr, snd (last stack) + 2 * dc)])"
proof -
  let ?c = "last stack"
  let ?n = "choice (rnd i) (unvisited m ?c)"
  have n: "?n \<in> set (unvisited m ?c)" using assms by (rule choice_in)
  then have int: "interior m ?n" and wall: "cell (maze_grid m) ?n = 1"
    and dir: "?n \<in> {(fst ?c, snd ?c + 2), (fst ?c + 2, snd ?c), (fst ?c, snd ?c - 2), (fst ?c - 2, snd ?c)}"
    unfolding unvisited_iff by blast+
  have step: "carve_step rnd i m stack =
       (i + 1,
        m\<lparr>maze_grid := set_cell (set_cell (maze_grid m)
             ((fst ?c + fst ?n) div 2, (snd ?c + snd ?n) div 2) 0) (fst ?n, snd ?n) 0\<rparr>,
        stack @ [?n])"
    using assms by (simp add: carve_step_def Let_def)
  from dir consider "?n = (fst ?c + 2 * 0, snd ?c + 2 * 1)" | "?n = (fst ?c + 2 * 1, snd ?c + 2 * 0)"
    | "?n = (fst ?c + 2 * 0, snd ?c + 2 * (-1))" | "?n = (fst ?c + 2 * (-1), snd ?c + 2 * 0)"
    by auto
  then show ?thesis
  proof cases
    case 1
    show ?thesis
      by (rule that[of 0 1]) (use 1 int wall step in \<open>simp_all\<close>)
  next
    case 2
    show ?thesis
      by (rule that[of 1 0]) (use 2 int wall step in \<open>simp_all\<close>)
  next
    case 3
    show ?thesis
      by (rule that[of 0 "-1"]) (use 3 int wall step in \<open>simp_all\<close>)
  next
    case 4
    show ?thesis
      by (rule that[of "-1" 0]) (use 4 int wall step in \<open>simp_all\<close>)
  qed
qed


lemma carve_shapeD:
  assumes "carve_shape m stack"
  shows "nd_rows (maze_grid m) = maze_height m" "nd_cols (maze_grid m) = maze_width m"
    "odd (maze_height m)" "odd (maze_width m)" "3 \<le> maze_height m" "3 \<le> maze_width m"
    "\<And>p. cell (maze_grid m) p = 0 \<or> cell (maze_grid m) p = 1"
    "\<And>p. cell (maze_grid m) p = 0 \<Longrightarrow> interior m p"
    "\<And>p. cell (maze_grid m) p = 0 \<Longrightarrow> odd (fst p) \<or> odd (snd p)"
    "\<And>p. cell (maze_grid m) p = 0 \<Longrightarrow> even (fst p) \<Longrightarrow>
       cell (maze_grid m) (fst p - 1, snd p) = 0 \<and> cell (maze_grid m) (fst p + 1, snd p) = 0"
    "\<And>p. cell (maze_grid m) p = 0 \<Longrightarrow> even (snd p) \<Longrightarrow>
       cell (maze_grid m) (fst p, snd p - 1) = 0 \<and> cell (maze_grid m) (fst p, snd p + 1) = 0"
    "\<And>p. p \<in> set stack \<Longrightarrow> cell (maze_grid m) p = 0 \<and> odd (fst p) \<and> odd (snd p)"
    "cell (maze_grid m) (1, 1) = 0"
  using assms unfolding carve_shape_def list_all_iff by blast+

lemma interior_grid [simp]: "interior (m\<lparr>maze_grid := g\<rparr>) p = interior m p"
  by (simp add: interior_def)

lemma interior_in_array:
  "nd_rows (maze_grid m) = maze_height m \<Longrightarrow> nd_cols (maze_grid m) = maze_width m \<Longrightarrow>
   interior m p \<Longrightarrow> in_array (maze_grid m) p"
  by (simp add: interior_def in_array_def)

lemma pop_shape: "carve_shape m stack \<Longrightarrow> carve_shape m (butlast stack)"
  unfolding carve_shape_def list_all_iff by (blast dest: in_set_butlastD)

lemma pop_done:
  assumes sh: "carve_shape m stack" and dn: "carve_done m stack" and ne: "stack \<noteq> []"
    and un: "unvisited m (last stack) = []"
  shows "carve_done m (butlast stack)"
  unfolding carve_done_def
proof (intro allI impI)
  fix p d
  assume h: "cell (maze_grid m) p = 0 \<and> odd (fst p) \<and> odd (snd p) \<and> p \<notin> set (butlast stack) \<and>
            d \<in> set directions \<and> interior m (fst p + fst d, snd p + snd d)"
  show "cell (maze_grid m) (fst p + fst d, snd p + snd d) = 0"
  proof (cases "p \<in> set stack")
    case False
    with h dn show ?thesis unfolding carve_done_def by blast
  next
    case True
    from ne obtain bs l where "stack = bs @ [l]"
      by (cases stack rule: rev_cases) auto
    with True h have "p = last stack" by auto
    with un h have "cell (maze_grid m) (fst p + fst d, snd p + snd d) \<noteq> 1"
      by (intro unvisited_empty) auto
    with carve_shapeD(7)[OF sh] show ?thesis by blast
  qed
qed

lemma push_shape:
  assumes sh: "carve_shape m stack" and c: "(x, y) \<in> set stack"
    and u: "(dr, dc) \<in> {(0, 1), (1, 0), (0, -1), (-1, 0)}"
    and int: "interior m (x + 2 * dr, y + 2 * dc)"
  shows "carve_shape
     (m\<lparr>maze_grid := set_cell (set_cell (maze_grid m) (x + dr, y + dc) 0) (x + 2 * dr, y + 2 * dc) 0\<rparr>)
     (stack @ [(x + 2 * dr, y + 2 * dc)])"
proof -
  let ?g = "maze_grid m"
  let ?w = "(x + dr, y + dc)"
  let ?n = "(x + 2 * dr, y + 2 * dc)"
  let ?g' = "set_cell (set_cell ?g ?w 0) ?n 0"
  note D = carve_shapeD[OF sh]
  from D(12)[OF c] have cxy: "cell ?g (x, y) = 0" "odd x" "odd y" by simp_all
  from D(8)[OF cxy(1)] have cint: "interior m (x, y)" .
  have mono: "cell ?g' q = 0" if "cell ?g q = 0" for q using that by simp
  have wint: "interior m ?w"
    using cint int u by (auto simp: interior_def)
  have wodd: "odd (fst ?w) \<or> odd (snd ?w)" using u cxy by auto
  have nodd: "odd (fst ?n)" "odd (snd ?n)" using cxy by simp_all
  have c8: "interior m p \<and> (odd (fst p) \<or> odd (snd p))" if h: "cell ?g' p = 0" for p
  proof -
    from h consider "p = ?n" | "p = ?w" | "cell ?g p = 0" by (auto split: if_splits)
    then show ?thesis
      using int wint wodd nodd D(8,9) by cases auto
  qed
  have c9: "cell ?g' (fst p - 1, snd p) = 0 \<and> cell ?g' (fst p + 1, snd p) = 0"
    if h: "cell ?g' p = 0" and that: "even (fst p)" for p
  proof -
    from h consider "p = ?n" | "p = ?w" | "cell ?g p = 0" by (auto split: if_splits)
    then show ?thesis
    proof cases
      case 1
      with that nodd show ?thesis by simp
    next
      case 2
      with that cxy have "dr = 1 \<or> dr = -1" "dc = 0" using u by auto
      with 2 cxy(1) show ?thesis by auto
    next
      case 3
      from D(10)[OF 3 that] mono show ?thesis by blast
    qed
  qed
  have c10: "cell ?g' (fst p, snd p - 1) = 0 \<and> cell ?g' (fst p, snd p + 1) = 0"
    if h: "cell ?g' p = 0" and that: "even (snd p)" for p
  proof -
    from h consider "p = ?n" | "p = ?w" | "cell ?g p = 0" by (auto split: if_splits)
    then show ?thesis
    proof cases
      case 1
      with that nodd show ?thesis by simp
    next
      case 2
      with that cxy have "dc = 1 \<or> dc = -1" "dr = 0" using u by auto
      with 2 cxy(1) show ?thesis by auto
    next
      case 3
      from D(11)[OF 3 that] mono show ?thesis by blast
    qed
  qed
  have c11: "list_all (\<lambda>p. cell ?g' p = 0 \<and> odd (fst p) \<and> odd (snd p)) (stack @ [?n])"
    unfolding list_all_iff using D(12) nodd by auto
  have c7: "\<forall>p. cell ?g' p = 0 \<or> cell ?g' p = 1" using D(7) by simp
  have c12: "cell ?g' (1, 1) = 0" using D(13) by simp
  let ?m' = "m\<lparr>maze_grid := ?g'\<rparr>"
  have eqs: "maze_grid ?m' = ?g'" "maze_height ?m' = maze_height m" "maze_width ?m' = maze_width m"
    by simp_all
  have r: "nd_rows ?g' = maze_height m" "nd_cols ?g' = maze_width m"
    using D(1,2) by simp_all
  have c8': "\<forall>p. cell ?g' p = 0 \<longrightarrow> interior ?m' p \<and> (odd (fst p) \<or> odd (snd p))"
    using c8 by (simp only: interior_grid) blast
  have c9': "\<forall>p. cell ?g' p = 0 \<longrightarrow> even (fst p) \<longrightarrow>
           cell ?g' (fst p - 1, snd p) = 0 \<and> cell ?g' (fst p + 1, snd p) = 0"
    using c9 by blast
  have c10': "\<forall>p. cell ?g' p = 0 \<longrightarrow> even (snd p) \<longrightarrow>
           cell ?g' (fst p, snd p - 1) = 0 \<and> cell ?g' (fst p, snd p + 1) = 0"
    using c10 by blast
  show ?thesis
    unfolding carve_shape_def eqs
    using r D(3-6) c7 c8' c9' c10' c11 c12 by - (intro conjI; assumption)
qed

lemma push_done:
  assumes sh: "carve_shape m stack" and dn: "carve_done m stack" and c: "(x, y) \<in> set stack"
    and u: "(dr, dc) \<in> {(0, 1), (1, 0), (0, -1), (-1, 0)}"
  shows "carve_done
     (m\<lparr>maze_grid := set_cell (set_cell (maze_grid m) (x + dr, y + dc) 0) (x + 2 * dr, y + 2 * dc) 0\<rparr>)
     (stack @ [(x + 2 * dr, y + 2 * dc)])"
  unfolding carve_done_def
proof (intro allI impI)
  let ?g = "maze_grid m"
  let ?w = "(x + dr, y + dc)"
  let ?n = "(x + 2 * dr, y + 2 * dc)"
  let ?m' = "m\<lparr>maze_grid := set_cell (set_cell ?g ?w 0) ?n 0\<rparr>"
  fix p d
  assume h: "cell (maze_grid ?m') p = 0 \<and> odd (fst p) \<and> odd (snd p) \<and> p \<notin> set (stack @ [?n]) \<and>
            d \<in> set directions \<and> interior ?m' (fst p + fst d, snd p + snd d)"
  from carve_shapeD(12)[OF sh c] have cxy: "odd x" "odd y" by simp_all
  have "p \<noteq> ?w" using h u cxy by auto
  moreover have "p \<noteq> ?n" using h by simp
  ultimately have "cell ?g p = 0" using h by simp
  with h dn have "cell ?g (fst p + fst d, snd p + snd d) = 0"
    unfolding carve_done_def by simp
  then show "cell (maze_grid ?m') (fst p + fst d, snd p + snd d) = 0" by simp
qed


lemma adjacent_cases:
  "adjacent p q \<longleftrightarrow>
     q \<in> {(fst p + 1, snd p), (fst p - 1, snd p), (fst p, snd p + 1), (fst p, snd p - 1)}"
proof -
  obtain a b where q: "q = (a, b)" by (cases q)
  show ?thesis unfolding adjacent_def q by auto
qed

lemma push_tree:
  assumes sh: "carve_shape m stack" and c: "(x, y) \<in> set stack"
    and u: "(dr, dc) \<in> {(0, 1), (1, 0), (0, -1), (-1, 0)}"
    and int: "interior m (x + 2 * dr, y + 2 * dc)"
    and wall: "cell (maze_grid m) (x + 2 * dr, y + 2 * dc) = 1"
    and tree: "is_tree (open_cells (maze_grid m))"
  shows "is_tree (open_cells
     (set_cell (set_cell (maze_grid m) (x + dr, y + dc) 0) (x + 2 * dr, y + 2 * dc) 0))"
proof -
  let ?g = "maze_grid m"
  let ?w = "(x + dr, y + dc)"
  let ?n = "(x + 2 * dr, y + 2 * dc)"
  let ?g' = "set_cell (set_cell ?g ?w 0) ?n 0"
  let ?O = "open_cells ?g"
  note D = carve_shapeD[OF sh]
  from D(12)[OF c] have cxy: "cell ?g (x, y) = 0" "odd x" "odd y" by simp_all
  from D(8)[OF cxy(1)] have cint: "interior m (x, y)" .
  have wint: "interior m ?w"
    using cint int u by (auto simp: interior_def)
  have arr: "in_array ?g ?n" "in_array ?g ?w" "in_array ?g (x, y)"
    using int wint cint D(1,2) by (simp_all add: interior_in_array)
  have O: "p \<in> ?O \<longleftrightarrow> cell ?g p = 0" for p
    using D(8)[of p] D(1,2) by (auto simp: open_cells_def interior_in_array)
  have eq: "open_cells ?g' = insert ?n (insert ?w ?O)"
    using arr by (auto simp: open_cells_def)
  have nw: "?n \<noteq> ?w" using u by auto
  have wclosed: "cell ?g ?w \<noteq> 0"
  proof
    assume w0: "cell ?g ?w = 0"
    from u consider "dr = 1" "dc = 0" | "dr = -1" "dc = 0" | "dr = 0" "dc = 1" | "dr = 0" "dc = -1"
      by auto
    then have "cell ?g ?n = 0"
    proof cases
      case 1
      with D(10)[OF w0] cxy show ?thesis by (simp add: add.commute)
    next
      case 2
      with D(10)[OF w0] cxy show ?thesis by simp
    next
      case 3
      with D(11)[OF w0] cxy show ?thesis by (simp add: add.commute)
    next
      case 4
      with D(11)[OF w0] cxy show ?thesis by simp
    qed
    with wall show False by simp
  qed
  have t1: "is_tree (insert ?w ?O)"
  proof (rule is_tree_pendant[OF tree, of "(x, y)"])
    show "(x, y) \<in> ?O" using cxy O by simp
    show "?w \<notin> ?O" using wclosed O by simp
    show "adjacent ?w (x, y)" using u by (auto simp: adjacent_def)
  next
    fix q assume q: "q \<in> ?O" "adjacent ?w q"
    from q(1) have q0: "cell ?g q = 0" using O by simp
    from q(2) consider "q = (x + dr + 1, y + dc)" | "q = (x + dr - 1, y + dc)"
      | "q = (x + dr, y + dc + 1)" | "q = (x + dr, y + dc - 1)"
      unfolding adjacent_cases by auto
    then show "q = (x, y)"
      using u D(9)[OF q0] q0 wall cxy by cases (auto simp: ac_simps)
  qed
  have t2: "is_tree (insert ?n (insert ?w ?O))"
  proof (rule is_tree_pendant[OF t1, of ?w])
    show "?w \<in> insert ?w ?O" by simp
    show "?n \<notin> insert ?w ?O" using nw wall O by simp
    show "adjacent ?n ?w" using u by (auto simp: adjacent_def)
  next
    fix q assume q: "q \<in> insert ?w ?O" "adjacent ?n q"
    show "q = ?w"
    proof (rule ccontr)
      assume ne: "q \<noteq> ?w"
      with q(1) have q0: "cell ?g q = 0" using O by simp
      from q(2) consider "q = (x + 2 * dr + 1, y + 2 * dc)" | "q = (x + 2 * dr - 1, y + 2 * dc)"
        | "q = (x + 2 * dr, y + 2 * dc + 1)" | "q = (x + 2 * dr, y + 2 * dc - 1)"
        unfolding adjacent_cases by auto
      then have "cell ?g ?n = 0"
      proof cases
        case 1
        with D(10)[OF q0] cxy show ?thesis by simp
      next
        case 2
        with D(10)[OF q0] cxy show ?thesis by simp
      next
        case 3
        with D(11)[OF q0] cxy show ?thesis by simp
      next
        case 4
        with D(11)[OF q0] cxy show ?thesis by simp
      qed
      with wall show False by simp
    qed
  qed
  show ?thesis unfolding eq by (rule t2)
qed

lemma finite_walls: "finite (walls m)"
proof -
  have "walls m \<subseteq> {0..<maze_height m} \<times> {0..<maze_width m}"
    by (auto simp: walls_def interior_def)
  then show ?thesis by (rule finite_subset) simp
qed

lemma push_walls:
  assumes "interior m n" "cell (maze_grid m) n = 1"
  shows "card (walls (m\<lparr>maze_grid := set_cell (set_cell (maze_grid m) w 0) n 0\<rparr>)) < card (walls m)"
proof (rule psubset_card_mono[OF finite_walls])
  have "n \<in> walls m" using assms by (simp add: walls_def)
  moreover have "n \<notin> walls (m\<lparr>maze_grid := set_cell (set_cell (maze_grid m) w 0) n 0\<rparr>)"
    by (simp add: walls_def)
  moreover have "walls (m\<lparr>maze_grid := set_cell (set_cell (maze_grid m) w 0) n 0\<rparr>) \<subseteq> walls m"
    by (auto simp: walls_def split: if_splits)
  ultimately show "walls (m\<lparr>maze_grid := set_cell (set_cell (maze_grid m) w 0) n 0\<rparr>) \<subset> walls m"
    by blast
qed

lemma carve_loop_total:
  assumes "carve_inv m stack"
  shows "\<exists>i' m'. carve_loop rnd i m stack = Some (i', m') \<and> carve_inv m' [] \<and>
           maze_width m' = maze_width m \<and> maze_height m' = maze_height m \<and>
           maze_start m' = maze_start m \<and> maze_end m' = maze_end m"
  using assms
proof (induction "2 * card (walls m) + length stack" arbitrary: i m stack rule: less_induct)
  case less
  from less.prems have sh: "carve_shape m stack" and dn: "carve_done m stack"
    and tree: "is_tree (open_cells (maze_grid m))"
    by (simp_all add: carve_inv_def)
  show ?case
  proof (cases "stack = []")
    case True
    then have "carve_loop rnd i m stack = Some (i, m)"
      by (subst carve_loop.simps) simp
    with less.prems True show ?thesis by simp
  next
    case ne: False
    have unf: "carve_loop rnd i m stack =
        carve_loop rnd (fst (carve_step rnd i m stack)) (fst (snd (carve_step rnd i m stack)))
          (snd (snd (carve_step rnd i m stack)))"
      using ne by (subst carve_loop.simps) (simp add: Let_def)
    show ?thesis
    proof (cases "unvisited m (last stack) = []")
      case True
      have st: "carve_step rnd i m stack = (i, m, butlast stack)"
        using True by (rule carve_step_pop)
      have "carve_inv m (butlast stack)"
        using pop_shape[OF sh] pop_done[OF sh dn ne True] tree by (simp add: carve_inv_def)
      moreover have "2 * card (walls m) + length (butlast stack) < 2 * card (walls m) + length stack"
        using ne by simp
      ultimately show ?thesis
        using less.hyps[of m "butlast stack" i] unf st by simp
    next
      case False
      obtain x y where xy: "last stack = (x, y)" by (cases "last stack")
      with ne have c: "(x, y) \<in> set stack" by (metis last_in_set)
      from carve_step_push[OF False, of rnd i] xy obtain dr dc where
        u: "(dr, dc) \<in> {(0, 1), (1, 0), (0, -1), (-1, 0)}" and
        int: "interior m (x + 2 * dr, y + 2 * dc)" and
        wall: "cell (maze_grid m) (x + 2 * dr, y + 2 * dc) = 1" and
        st: "carve_step rnd i m stack =
          (i + 1,
           m\<lparr>maze_grid := set_cell (set_cell (maze_grid m) (x + dr, y + dc) 0)
                (x + 2 * dr, y + 2 * dc) 0\<rparr>,
           stack @ [(x + 2 * dr, y + 2 * dc)])"
        by (metis fst_conv snd_conv)
      let ?m' = "m\<lparr>maze_grid := set_cell (set_cell (maze_grid m) (x + dr, y + dc) 0)
                (x + 2 * dr, y + 2 * dc) 0\<rparr>"
      let ?s' = "stack @ [(x + 2 * dr, y + 2 * dc)]"
      have "carve_inv ?m' ?s'"
        using push_shape[OF sh c u int] push_done[OF sh dn c u] push_tree[OF sh c u int wall tree]
        by (simp add: carve_inv_def)
      moreover have "2 * card (walls ?m') + length ?s' < 2 * card (walls m) + length stack"
        using push_walls[OF int wall, of "(x + dr, y + dc)"] by simp
      ultimately show ?thesis
        using less.hyps[of ?m' ?s' "i + 1"] unf st by simp
    qed
  qed
qed

section \<open>What \<open>generate\<close> returns\<close>

lemma ones_Inr:
  assumes "ones mem h w = Inr g"
  shows "0 \<le> h" "0 \<le> w" "g = \<lparr>nd_rows = h, nd_cols = w, nd_data = (\<lambda>p. 1)\<rparr>"
proof -
  from assms have neg: "\<not> (h < 0 \<or> w < 0)"
    by (cases "h < 0 \<or> w < 0") (simp_all add: ones_def)
  then show "0 \<le> h" "0 \<le> w" by simp_all
  from assms neg show "g = \<lparr>nd_rows = h, nd_cols = w, nd_data = (\<lambda>p. 1)\<rparr>"
    by (simp add: ones_def split: if_splits)
qed


lemma Maze_init_Inr:
  assumes "Maze_init mem width height = Inr m0"
  shows "maze_width m0 = (if width mod 2 = 1 then width else width + 1)"
    "maze_height m0 = (if height mod 2 = 1 then height else height + 1)"
    "0 \<le> maze_width m0" "0 \<le> maze_height m0"
    "maze_grid m0 = \<lparr>nd_rows = maze_height m0, nd_cols = maze_width m0, nd_data = (\<lambda>p. 1)\<rparr>"
    "maze_start m0 = None" "maze_end m0 = None"
proof -
  let ?w = "if width mod 2 = 1 then width else width + 1"
  let ?h = "if height mod 2 = 1 then height else height + 1"
  from assms obtain g where g: "ones mem ?h ?w = Inr g"
    and m0: "m0 = \<lparr>maze_width = ?w, maze_height = ?h, maze_grid = g,
                     maze_start = None, maze_end = None\<rparr>"
    by (cases "ones mem ?h ?w") (auto simp: Maze_init_def Let_def)
  note O = ones_Inr[OF g]
  show "maze_width m0 = ?w" "maze_height m0 = ?h" "maze_start m0 = None" "maze_end m0 = None"
    by (simp_all add: m0)
  show "0 \<le> maze_width m0" "0 \<le> maze_height m0" using O(1,2) by (simp_all add: m0)
  show "maze_grid m0 = \<lparr>nd_rows = maze_height m0, nd_cols = maze_width m0, nd_data = (\<lambda>p. 1)\<rparr>"
    using O(3) by (simp add: m0)
qed

lemma Maze_init_odd:
  assumes "Maze_init mem width height = Inr m0"
  shows "odd (maze_width m0)" "odd (maze_height m0)"
  using Maze_init_Inr(1,2)[OF assms] by (auto simp: odd_iff_mod_2_eq_one)

lemma carve_inv_init:
  assumes init: "Maze_init mem width height = Inr m0" and seed: "in_array (maze_grid m0) (1, 1)"
  shows "carve_inv (carved m0) [(1, 1)]"
proof -
  note I = Maze_init_Inr[OF init] and odd = Maze_init_odd[OF init]
  let ?g = "maze_grid (carved m0)"
  have dims: "maze_height (carved m0) = maze_height m0" "maze_width (carved m0) = maze_width m0"
    by (simp_all add: carved_def)
  from seed have "1 < maze_height m0" "1 < maze_width m0"
    by (simp_all add: in_array_def I(5))
  with odd have big: "3 \<le> maze_height m0" "3 \<le> maze_width m0"
    by presburger+
  have c: "cell ?g p = (if p = (1, 1) then 0 else 1)" for p
    by (simp add: carved_def I(5)) (simp add: cell_def)
  have shape: "carve_shape (carved m0) [(1, 1)]"
    unfolding carve_shape_def c dims
    using big odd by (auto simp: carved_def I(5) interior_def)
  have dn0: "carve_done (carved m0) [(1, 1)]"
    unfolding carve_done_def c by auto
  have "open_cells ?g = {(1, 1)}"
    using seed by (auto simp: open_cells_def c) (simp add: carved_def)
  then have "is_tree (open_cells ?g)" by (simp add: is_tree_single)
  with shape dn0 show ?thesis by (simp add: carve_inv_def)
qed

lemma randint_range:
  assumes "lo \<le> hi"
  shows "lo \<le> randint r lo hi" "randint r lo hi \<le> hi"
proof -
  have "0 < nat (hi - lo + 1)" using assms by simp
  then have "r mod nat (hi - lo + 1) < nat (hi - lo + 1)" by (rule mod_less_divisor)
  then have "int (r mod nat (hi - lo + 1)) < hi - lo + 1" using assms by linarith
  then show "lo \<le> randint r lo hi" "randint r lo hi \<le> hi"
    by (simp_all add: randint_def)
qed

lemma reroll_result:
  assumes "reroll rnd i m col y = Some r"
  shows "3 \<le> maze_height m \<longrightarrow> 1 \<le> y \<and> y \<le> maze_height m - 2 \<longrightarrow>
         1 \<le> snd r \<and> snd r \<le> maze_height m - 2 \<and> cell (maze_grid m) (snd r, col) \<noteq> 1"
proof (rule reroll.raw_induct[where P = "\<lambda>rnd i m col y r.
         3 \<le> maze_height m \<longrightarrow> 1 \<le> y \<and> y \<le> maze_height m - 2 \<longrightarrow>
         1 \<le> snd r \<and> snd r \<le> maze_height m - 2 \<and> cell (maze_grid m) (snd r, col) \<noteq> 1",
       OF _ assms], goal_cases)
  case (1 reroll' rnd i m col y r)
  show ?case
  proof (cases "cell (maze_grid m) (y, col) = 1")
    case True
    with 1(2) have "reroll' rnd (i + 1) m col (randint (rnd i) 1 (maze_height m - 2)) = Some r"
      by simp
    from 1(1)[OF this] show ?thesis
      using randint_range[of 1 "maze_height m - 2" "rnd i"] by auto
  next
    case False
    with 1(2) show ?thesis by auto
  qed
qed

lemma generate_result:
  assumes init: "Maze_init mem width height = Inr m0" and gen: "generate rnd m0 = Some (Inr m')"
  obtains i m2 sy ey where
    "in_array (maze_grid m0) (1, 1)"
    "carve_loop rnd 0 (carved m0) [(1, 1)] = Some (i, m2)" "carve_inv m2 []"
    "maze_width m2 = maze_width m0" "maze_height m2 = maze_height m0"
    "1 \<le> sy" "sy \<le> maze_height m2 - 2" "cell (maze_grid m2) (sy, 1) = 0"
    "1 \<le> ey" "ey \<le> maze_height m2 - 2" "cell (maze_grid m2) (ey, maze_width m2 - 2) = 0"
    "m' = m2\<lparr>maze_start := Some (sy, 0), maze_end := Some (ey, maze_width m2 - 1),
              maze_grid := set_cell (set_cell (maze_grid m2) (sy, 0) 0) (ey, maze_width m2 - 1) 0\<rparr>"
proof -
  from gen have seed: "in_array (maze_grid m0) (1, 1)"
    by (auto simp: generate_def split: if_splits)
  from carve_loop_total[OF carve_inv_init[OF init seed], of rnd 0] obtain i m2 where
    loop: "carve_loop rnd 0 (carved m0) [(1, 1)] = Some (i, m2)" and inv: "carve_inv m2 []"
    and dims: "maze_width m2 = maze_width (carved m0)" "maze_height m2 = maze_height (carved m0)"
    by blast
  from inv have sh: "carve_shape m2 []" by (simp add: carve_inv_def)
  note D = carve_shapeD[OF sh]
  from gen seed loop have gse: "generate_start_end rnd i m2 = Some (Inr m')"
    by (simp add: generate_def)
  have h: "\<not> maze_height m2 - 2 < 1" "1 \<le> maze_height m2 - 2" using D(5) by simp_all
  from gse h obtain r1 where
    r1: "reroll rnd (i + 1) m2 1 (randint (rnd i) 1 (maze_height m2 - 2)) = Some r1"
    by (auto simp: generate_start_end_def split: option.splits)
  from gse h r1 obtain r2 where
    r2: "reroll rnd (fst r1 + 1) m2 (maze_width m2 - 2)
           (randint (rnd (fst r1)) 1 (maze_height m2 - 2)) = Some r2"
    by (auto simp: generate_start_end_def Let_def split: option.splits)
  from gse h r1 r2 have m': "m' = m2\<lparr>maze_start := Some (snd r1, 0),
      maze_end := Some (snd r2, maze_width m2 - 1),
      maze_grid := set_cell (set_cell (maze_grid m2) (snd r1, 0) 0) (snd r2, maze_width m2 - 1) 0\<rparr>"
    by (simp add: generate_start_end_def Let_def)
  from reroll_result[OF r1] D(5) randint_range[OF h(2), of "rnd i"]
  have s: "1 \<le> snd r1" "snd r1 \<le> maze_height m2 - 2" "cell (maze_grid m2) (snd r1, 1) \<noteq> 1"
    by simp_all
  from reroll_result[OF r2] D(5) randint_range[OF h(2), of "rnd (fst r1)"]
  have e: "1 \<le> snd r2" "snd r2 \<le> maze_height m2 - 2"
    "cell (maze_grid m2) (snd r2, maze_width m2 - 2) \<noteq> 1"
    by simp_all
  from s(3) e(3) D(7) have "cell (maze_grid m2) (snd r1, 1) = 0"
    "cell (maze_grid m2) (snd r2, maze_width m2 - 2) = 0"
    by blast+
  with that[OF seed loop inv _ _ s(1,2) _ e(1,2) _ m'] dims show ?thesis
    by (simp add: carved_def)
qed

lemma border_tree:
  assumes inv: "carve_inv m []"
    and s: "1 \<le> sy" "sy \<le> maze_height m - 2" "cell (maze_grid m) (sy, 1) = 0"
    and e: "1 \<le> ey" "ey \<le> maze_height m - 2" "cell (maze_grid m) (ey, maze_width m - 2) = 0"
  shows "is_tree (open_cells (set_cell (set_cell (maze_grid m) (sy, 0) 0) (ey, maze_width m - 1) 0))"
proof -
  let ?g = "maze_grid m"
  let ?s = "(sy, 0)"
  let ?e = "(ey, maze_width m - 1)"
  let ?O = "open_cells ?g"
  from inv have sh: "carve_shape m []" and tree: "is_tree ?O" by (simp_all add: carve_inv_def)
  note D = carve_shapeD[OF sh]
  have O: "p \<in> ?O \<longleftrightarrow> cell ?g p = 0" for p
    using D(8)[of p] D(1,2) by (auto simp: open_cells_def interior_in_array)
  have inner: "0 < fst p \<and> fst p < maze_height m - 1 \<and> 0 < snd p \<and> snd p < maze_width m - 1"
    if "p \<in> ?O" for p
    using that D(8)[of p] O by (simp add: interior_def)
  have arr: "in_array ?g ?s" "in_array ?g ?e"
    using s e D(1,2,5,6) by (simp_all add: in_array_def)
  have eq: "open_cells (set_cell (set_cell ?g ?s 0) ?e 0) = insert ?e (insert ?s ?O)"
    using arr by (auto simp: open_cells_def)
  have t1: "is_tree (insert ?s ?O)"
  proof (rule is_tree_pendant[OF tree, of "(sy, 1)"])
    show "(sy, 1) \<in> ?O" using s(3) O by simp
    show "?s \<notin> ?O" using inner[of ?s] by auto
    show "adjacent ?s (sy, 1)" by (simp add: adjacent_def)
  next
    fix q assume q: "q \<in> ?O" "adjacent ?s q"
    from q(2) inner[OF q(1)] show "q = (sy, 1)"
      unfolding adjacent_cases by auto
  qed
  have t2: "is_tree (insert ?e (insert ?s ?O))"
  proof (rule is_tree_pendant[OF t1, of "(ey, maze_width m - 2)"])
    show "(ey, maze_width m - 2) \<in> insert ?s ?O" using e(3) O by simp
    show "?e \<notin> insert ?s ?O" using inner[of ?e] D(6) by auto
    show "adjacent ?e (ey, maze_width m - 2)" by (simp add: adjacent_def)
  next
    fix q assume q: "q \<in> insert ?s ?O" "adjacent ?e q"
    show "q = (ey, maze_width m - 2)"
    proof (cases "q = ?s")
      case True
      with q(2) D(6) show ?thesis unfolding adjacent_cases by auto
    next
      case False
      with q(1) have "q \<in> ?O" by simp
      from q(2) inner[OF this] show ?thesis
        unfolding adjacent_cases by auto
    qed
  qed
  show ?thesis unfolding eq by (rule t2)
qed

lemma first_row_open:
  assumes inv: "carve_inv m []"
  shows "cell (maze_grid m) (1, 1) = 0" "cell (maze_grid m) (1, maze_width m - 2) = 0"
proof -
  from inv have sh: "carve_shape m []" and dn: "carve_done m []" by (simp_all add: carve_inv_def)
  note D = carve_shapeD[OF sh]
  show seed: "cell (maze_grid m) (1, 1) = 0" by (rule D(13))
  have row: "1 + 2 * int k \<le> maze_width m - 2 \<Longrightarrow> cell (maze_grid m) (1, 1 + 2 * int k) = 0" for k
  proof (induction k)
    case 0
    show ?case using seed by simp
  next
    case (Suc k)
    then have prev: "cell (maze_grid m) (1, 1 + 2 * int k) = 0" by simp
    have "interior m (1, 1 + 2 * int k + 2)"
      using Suc.prems D(5) by (simp add: interior_def)
    with prev dn[unfolded carve_done_def, rule_format, of "(1, 1 + 2 * int k)" "(0, 2)"]
    have "cell (maze_grid m) (1, 1 + 2 * int k + 2) = 0"
      by (simp add: directions_def)
    then show ?case by (simp add: algebra_simps)
  qed
  from D(4) obtain j where j: "maze_width m = 2 * j + 1" by (rule oddE)
  with D(6) have "1 \<le> j" by simp
  then have "int (nat (j - 1)) = j - 1" by simp
  with j have k: "maze_width m - 2 = 1 + 2 * int (nat (j - 1))" by simp
  with row[of "nat (j - 1)"] show "cell (maze_grid m) (1, maze_width m - 2) = 0" by simp
qed

lemma is_open_AStar_init: "is_open (AStar_init g) p \<longleftrightarrow> p \<in> open_cells g"
  by (auto simp: is_open_def AStar_init_def open_cells_def in_array_def)

lemma simple_path_open_path:
  "simple_path (open_cells g) a b ps \<Longrightarrow> open_path (AStar_init g) a b ps"
  by (auto simp: simple_path_def open_path_def list_all_iff is_open_AStar_init)


lemma carve_step_dichotomy:
  "(\<exists>i' m' n. carve_step rnd i m stack = (i', m', stack @ [n]) \<and> n \<in> walls m \<and>
        n \<notin> walls m' \<and> walls m' \<subseteq> walls m) \<or>
   carve_step rnd i m stack = (i, m, butlast stack)"
proof (cases "unvisited m (last stack) = []")
  case True
  then show ?thesis by (simp add: carve_step_pop)
next
  case False
  from carve_step_push[OF False, of rnd i] obtain dr dc where
    int: "interior m (fst (last stack) + 2 * dr, snd (last stack) + 2 * dc)" and
    wall: "cell (maze_grid m) (fst (last stack) + 2 * dr, snd (last stack) + 2 * dc) = 1" and
    st: "carve_step rnd i m stack =
       (i + 1,
        m\<lparr>maze_grid := set_cell (set_cell (maze_grid m)
             (fst (last stack) + dr, snd (last stack) + dc) 0)
             (fst (last stack) + 2 * dr, snd (last stack) + 2 * dc) 0\<rparr>,
        stack @ [(fst (last stack) + 2 * dr, snd (last stack) + 2 * dc)])"
    by blast
  let ?n = "(fst (last stack) + 2 * dr, snd (last stack) + 2 * dc)"
  let ?m' = "m\<lparr>maze_grid := set_cell (set_cell (maze_grid m)
             (fst (last stack) + dr, snd (last stack) + dc) 0) ?n 0\<rparr>"
  have "?n \<in> walls m" using int wall by (simp add: walls_def)
  moreover have "?n \<notin> walls ?m'" by (simp add: walls_def)
  moreover have "walls ?m' \<subseteq> walls m" by (auto simp: walls_def split: if_splits)
  ultimately show ?thesis using st by blast
qed

lemma maze5_init: "Maze_init 4096 5 5 = Inr maze5"
  by (simp add: Maze_init_def ones_def npy_intp_max_def itemsize_def maze5_def)

lemma maze5_carve_run:
  "map_option (\<lambda>r. to_rows (maze_grid (snd r))) (carve_loop first_draw 0 (carved maze5) [(1, 1)]) =
   Some [[1, 1, 1, 1, 1],
         [1, 0, 0, 0, 1],
         [1, 1, 1, 0, 1],
         [1, 0, 0, 0, 1],
         [1, 1, 1, 1, 1]]"
  by code_simp

lemma maze5_generate_run:
  "map_option (map_sum id (\<lambda>m. (maze_start m, maze_end m, to_rows (maze_grid m))))
     (generate first_draw maze5) =
   Some (Inr (Some (1, 0), Some (1, 4),
        [[1, 1, 1, 1, 1],
         [0, 0, 0, 0, 0],
         [1, 1, 1, 0, 1],
         [1, 0, 0, 0, 1],
         [1, 1, 1, 1, 1]]))"
  by code_simp

lemma maze5_generate_some:
  "\<exists>m'. generate first_draw maze5 = Some (Inr m') \<and> maze_start m' = Some (1, 0) \<and>
        maze_end m' = Some (1, 4) \<and>
        to_rows (maze_grid m') =
          [[1, 1, 1, 1, 1], [0, 0, 0, 0, 0], [1, 1, 1, 0, 1], [1, 0, 0, 0, 1], [1, 1, 1, 1, 1]]"
proof (cases "generate first_draw maze5")
  case None
  with maze5_generate_run show ?thesis by simp
next
  case (Some x)
  with maze5_generate_run show ?thesis by (cases x) auto
qed

section \<open>The claims about the maze\<close>




text \<open>
  Claim C8: for odd-forced width and height of at least three, the carving loop
  terminates, whatever the draws: it reaches the empty stack. Every turn either
  pushes a cell that was a wall inside the border and no longer is (and leaves no wall
  where there was none), or pops the stack and leaves the maze as it is.
\<close>

theorem carve_loop_terminates:
  assumes "Maze_init mem width height = Inr m0" "3 \<le> maze_width m0" "3 \<le> maze_height m0"
  shows "(\<exists>i m2. carve_loop rnd 0 (carved m0) [(1, 1)] = Some (i, m2)) \<and>
     (\<forall>i m stack.
        (\<exists>i' m' n. carve_step rnd i m stack = (i', m', stack @ [n]) \<and> n \<in> walls m \<and>
            n \<notin> walls m' \<and> walls m' \<subseteq> walls m) \<or>
        carve_step rnd i m stack = (i, m, butlast stack))"
proof -
  have "in_array (maze_grid m0) (1, 1)"
    using assms by (simp add: in_array_def Maze_init_Inr(5))
  from carve_loop_total[OF carve_inv_init[OF assms(1) this], of rnd 0]
  have "\<exists>i m2. carve_loop rnd 0 (carved m0) [(1, 1)] = Some (i, m2)" by blast
  then show ?thesis using carve_step_dichotomy by blast
qed

theorem carve_loop_terminates_witness:
  "Maze_init 4096 5 5 = Inr maze5 \<and> 3 \<le> maze_width maze5 \<and> 3 \<le> maze_height maze5 \<and>
   (\<exists>i m2. carve_loop first_draw 0 (carved maze5) [(1, 1)] = Some (i, m2))"
  using carve_loop_terminates[OF maze5_init, of first_draw] maze5_init
  by (simp add: maze5_def)

text \<open>
  Claim C5: when the carving loop of \<open>generate\<close> finishes, column \<open>1\<close> holds an open cell
  in a row from \<open>1\<close> to \<open>height - 2\<close>, and so does column \<open>width - 2\<close>. The loop is entered
  once the write \<open>maze[1, 1] = 0\<close> has succeeded.
\<close>

theorem carved_columns_open:
  assumes "Maze_init mem width height = Inr m0" "in_array (maze_grid m0) (1, 1)"
    "carve_loop rnd 0 (carved m0) [(1, 1)] = Some (i, m2)"
  shows "(\<exists>r. 1 \<le> r \<and> r \<le> maze_height m2 - 2 \<and> cell (maze_grid m2) (r, 1) = 0) \<and>
         (\<exists>r. 1 \<le> r \<and> r \<le> maze_height m2 - 2 \<and> cell (maze_grid m2) (r, maze_width m2 - 2) = 0)"
proof -
  from carve_loop_total[OF carve_inv_init[OF assms(1,2)], of rnd 0] assms(3)
  have inv: "carve_inv m2 []" by auto
  then have "carve_shape m2 []" by (simp add: carve_inv_def)
  from carve_shapeD(5)[OF this] have "(1::int) \<le> 1 \<and> 1 \<le> maze_height m2 - 2" by simp
  with first_row_open[OF inv] show ?thesis by blast
qed

theorem carved_columns_open_witness:
  "Maze_init 4096 5 5 = Inr maze5 \<and> in_array (maze_grid maze5) (1, 1) \<and>
   (\<exists>i m2. carve_loop first_draw 0 (carved maze5) [(1, 1)] = Some (i, m2) \<and>
      (\<exists>r. 1 \<le> r \<and> r \<le> maze_height m2 - 2 \<and> cell (maze_grid m2) (r, 1) = 0) \<and>
      (\<exists>r. 1 \<le> r \<and> r \<le> maze_height m2 - 2 \<and> cell (maze_grid m2) (r, maze_width m2 - 2) = 0))"
proof -
  have seed: "in_array (maze_grid maze5) (1, 1)" by (simp add: maze5_def in_array_def)
  from maze5_carve_run obtain i m2 where
    run: "carve_loop first_draw 0 (carved maze5) [(1, 1)] = Some (i, m2)"
    by (cases "carve_loop first_draw 0 (carved maze5) [(1, 1)]") auto
  from carved_columns_open[OF maze5_init seed run] run seed maze5_init show ?thesis by blast
qed

text \<open>
  Claim C4: for every width and height, after \<open>generate\<close> returns, the open cells of the
  grid with 4-adjacency form a tree: any two open cells are joined by exactly one
  simple path (so the graph is connected).
\<close>

theorem generate_perfect_maze:
  assumes "Maze_init mem width height = Inr m0" "generate rnd m0 = Some (Inr m')"
  shows "is_tree (open_cells (maze_grid m'))"
proof -
  from generate_result[OF assms] obtain i m2 sy ey where
    inv: "carve_inv m2 []" and
    s: "1 \<le> sy" "sy \<le> maze_height m2 - 2" "cell (maze_grid m2) (sy, 1) = 0" and
    e: "1 \<le> ey" "ey \<le> maze_height m2 - 2" "cell (maze_grid m2) (ey, maze_width m2 - 2) = 0" and
    m': "m' = m2\<lparr>maze_start := Some (sy, 0), maze_end := Some (ey, maze_width m2 - 1),
              maze_grid := set_cell (set_cell (maze_grid m2) (sy, 0) 0) (ey, maze_width m2 - 1) 0\<rparr>"
    by blast
  from border_tree[OF inv s e] show ?thesis by (simp add: m')
qed

theorem generate_perfect_maze_witness:
  "Maze_init 4096 5 5 = Inr maze5 \<and>
   (\<exists>m'. generate first_draw maze5 = Some (Inr m') \<and>
      to_rows (maze_grid m') =
        [[1, 1, 1, 1, 1], [0, 0, 0, 0, 0], [1, 1, 1, 0, 1], [1, 0, 0, 0, 1], [1, 1, 1, 1, 1]] \<and>
      is_tree (open_cells (maze_grid m')))"
proof -
  from maze5_generate_some obtain m' where
    g: "generate first_draw maze5 = Some (Inr m')" and
    r: "to_rows (maze_grid m') =
        [[1, 1, 1, 1, 1], [0, 0, 0, 0, 0], [1, 1, 1, 0, 1], [1, 0, 0, 0, 1], [1, 1, 1, 1, 1]]"
    by blast
  from generate_perfect_maze[OF maze5_init g] g r maze5_init show ?thesis by blast
qed

text \<open>
  Claim C6: for every width and height, after \<open>generate\<close> returns, the start is a cell
  \<open>(r, 0)\<close> of the left border whose neighbour \<open>(r, 1)\<close> is open, the end is a cell
  \<open>(r', width - 1)\<close> of the right border whose neighbour \<open>(r', width - 2)\<close> is open, both
  border cells are open cells of the array, and a 4-connected path of open cells joins
  start and end in the grid the search is given.
\<close>

theorem generate_start_end_connected:
  assumes "Maze_init mem width height = Inr m0" "generate rnd m0 = Some (Inr m')"
  shows "\<exists>r r'. maze_start m' = Some (r, 0) \<and> maze_end m' = Some (r', maze_width m' - 1) \<and>
     1 \<le> r \<and> r \<le> maze_height m' - 2 \<and> 1 \<le> r' \<and> r' \<le> maze_height m' - 2 \<and>
     cell (maze_grid m') (r, 1) = 0 \<and> cell (maze_grid m') (r', maze_width m' - 2) = 0 \<and>
     cell (maze_grid m') (r, 0) = 0 \<and> cell (maze_grid m') (r', maze_width m' - 1) = 0 \<and>
     in_array (maze_grid m') (r, 0) \<and> in_array (maze_grid m') (r', maze_width m' - 1) \<and>
     (\<exists>ps. open_path (AStar_init (maze_grid m')) (r, 0) (r', maze_width m' - 1) ps)"
proof -
  from generate_result[OF assms] obtain i m2 sy ey where
    inv: "carve_inv m2 []" and
    s: "1 \<le> sy" "sy \<le> maze_height m2 - 2" "cell (maze_grid m2) (sy, 1) = 0" and
    e: "1 \<le> ey" "ey \<le> maze_height m2 - 2" "cell (maze_grid m2) (ey, maze_width m2 - 2) = 0" and
    m': "m' = m2\<lparr>maze_start := Some (sy, 0), maze_end := Some (ey, maze_width m2 - 1),
              maze_grid := set_cell (set_cell (maze_grid m2) (sy, 0) 0) (ey, maze_width m2 - 1) 0\<rparr>"
    by blast
  let ?g' = "set_cell (set_cell (maze_grid m2) (sy, 0) 0) (ey, maze_width m2 - 1) 0"
  from inv have sh: "carve_shape m2 []" by (simp add: carve_inv_def)
  note D = carve_shapeD[OF sh]
  have arr: "in_array ?g' (sy, 0)" "in_array ?g' (ey, maze_width m2 - 1)"
    using s e D(1,2,5,6) by (simp_all add: in_array_def)
  have opn: "cell ?g' (sy, 0) = 0" "cell ?g' (ey, maze_width m2 - 1) = 0"
    "cell ?g' (sy, 1) = 0" "cell ?g' (ey, maze_width m2 - 2) = 0"
    using s(3) e(3) by simp_all
  from arr opn have mem: "(sy, 0) \<in> open_cells ?g'" "(ey, maze_width m2 - 1) \<in> open_cells ?g'"
    by (simp_all add: open_cells_def)
  from border_tree[OF inv s e] mem obtain ps where
    "simple_path (open_cells ?g') (sy, 0) (ey, maze_width m2 - 1) ps"
    unfolding is_tree_def by blast
  then have "open_path (AStar_init ?g') (sy, 0) (ey, maze_width m2 - 1) ps"
    by (rule simple_path_open_path)
  with arr opn s e show ?thesis
    unfolding m' by (intro exI[of _ sy] exI[of _ ey]) auto
qed

theorem generate_start_end_connected_witness:
  "Maze_init 4096 5 5 = Inr maze5 \<and>
   (\<exists>m'. generate first_draw maze5 = Some (Inr m') \<and>
      maze_start m' = Some (1, 0) \<and> maze_end m' = Some (1, 4) \<and>
      (\<exists>r r'. maze_start m' = Some (r, 0) \<and> maze_end m' = Some (r', maze_width m' - 1) \<and>
         cell (maze_grid m') (r, 1) = 0 \<and> cell (maze_grid m') (r', maze_width m' - 2) = 0 \<and>
         cell (maze_grid m') (r, 0) = 0 \<and> cell (maze_grid m') (r', maze_width m' - 1) = 0 \<and>
         (\<exists>ps. open_path (AStar_init (maze_grid m')) (r, 0) (r', maze_width m' - 1) ps)))"
proof -
  from maze5_generate_some obtain m' where
    g: "generate first_draw maze5 = Some (Inr m')" and
    se: "maze_start m' = Some (1, 0)" "maze_end m' = Some (1, 4)"
    by blast
  from generate_start_end_connected[OF maze5_init g] g se maze5_init show ?thesis by blast
qed

end
